theory Spec2Isabelle
  imports Main "HOL-Library.Word"
begin

section \<open>JavaScript values\<close>

text \<open>
  A JavaScript string is a sequence of UTF-16 code units. A number is kept as the decimal
  \<open>m / 10 ^ k\<close> that \<open>Number::toString\<close> prints for it, next to \<open>NaN\<close> and the two
  infinities; the sign of zero is not represented. \<open>num_add\<close>, \<open>num_sub\<close> and \<open>num_mul\<close>
  compute on these decimals without rounding, which is what the double arithmetic of the
  platform does on integers of magnitude below \<open>2 ^ 53\<close>, such as the code units and the
  secret 75 that \<open>obfus\<close> adds up. The arithmetic on time stamps and TTLs, where a double
  can round or overflow to infinity, is not computed this way: it is a parameter of the
  environment (section on the backing store).
\<close>

type_synonym u16 = "16 word"
type_synonym jstring = "u16 list"

definition u :: "string \<Rightarrow> jstring" where
  "u s = map of_char s"

datatype jsnum = NaN | PosInf | NegInf | Fin int nat

fun normalize :: "int \<Rightarrow> nat \<Rightarrow> int \<times> nat" where
  "normalize m 0 = (m, 0)"
| "normalize m (Suc k) = (if m mod 10 = 0 then normalize (m div 10) k else (m, Suc k))"

definition fin :: "int \<Rightarrow> nat \<Rightarrow> jsnum" where
  "fin m k = (case normalize m k of (m', k') \<Rightarrow> Fin m' k')"

definition num :: "int \<Rightarrow> jsnum" where
  "num n = Fin n 0"

fun num_add :: "jsnum \<Rightarrow> jsnum \<Rightarrow> jsnum" where
  "num_add NaN _ = NaN"
| "num_add _ NaN = NaN"
| "num_add PosInf NegInf = NaN"
| "num_add NegInf PosInf = NaN"
| "num_add PosInf _ = PosInf"
| "num_add _ PosInf = PosInf"
| "num_add NegInf _ = NegInf"
| "num_add _ NegInf = NegInf"
| "num_add (Fin m j) (Fin n k) =
     fin (m * 10 ^ (max j k - j) + n * 10 ^ (max j k - k)) (max j k)"

fun num_neg :: "jsnum \<Rightarrow> jsnum" where
  "num_neg NaN = NaN"
| "num_neg PosInf = NegInf"
| "num_neg NegInf = PosInf"
| "num_neg (Fin m k) = Fin (- m) k"

definition num_sub :: "jsnum \<Rightarrow> jsnum \<Rightarrow> jsnum" where
  "num_sub a b = num_add a (num_neg b)"

fun num_sgn :: "jsnum \<Rightarrow> int" where
  "num_sgn NaN = 0"
| "num_sgn PosInf = 1"
| "num_sgn NegInf = - 1"
| "num_sgn (Fin m k) = sgn m"

fun num_mul :: "jsnum \<Rightarrow> jsnum \<Rightarrow> jsnum" where
  "num_mul NaN _ = NaN"
| "num_mul _ NaN = NaN"
| "num_mul (Fin m j) (Fin n k) = fin (m * n) (j + k)"
| "num_mul a b =
     (if num_sgn a * num_sgn b = 0 then NaN
      else if num_sgn a * num_sgn b > 0 then PosInf else NegInf)"

text \<open>\<open>a < b\<close> on numbers; every comparison with \<open>NaN\<close> is false.\<close>

fun num_less :: "jsnum \<Rightarrow> jsnum \<Rightarrow> bool" where
  "num_less NaN _ = False"
| "num_less _ NaN = False"
| "num_less PosInf _ = False"
| "num_less _ PosInf = True"
| "num_less _ NegInf = False"
| "num_less NegInf _ = True"
| "num_less (Fin m j) (Fin n k) = (m * 10 ^ (max j k - j) < n * 10 ^ (max j k - k))"

definition isNaN :: "jsnum \<Rightarrow> bool" where
  "isNaN x = (x = NaN)"

text \<open>Truthiness of a number: every number but zero and \<open>NaN\<close>.\<close>

fun num_truthy :: "jsnum \<Rightarrow> bool" where
  "num_truthy NaN = False"
| "num_truthy (Fin m k) = (m \<noteq> 0)"
| "num_truthy _ = True"

text \<open>\<open>ToUint16\<close>, the conversion \<open>String.fromCharCode\<close> applies to its argument:
  truncate towards zero, then reduce modulo \<open>2 ^ 16\<close>.\<close>

fun toUint16 :: "jsnum \<Rightarrow> u16" where
  "toUint16 (Fin m k) = word_of_int (sgn m * (\<bar>m\<bar> div 10 ^ k))"
| "toUint16 _ = 0"

text \<open>
  The values the program handles: JSON-like trees, \<open>undefined\<close>, functions (known by their
  source text, which is what the template literal \<open>`${cb}`\<close> yields) and \<open>JCircular\<close>, an
  object graph with a cycle. The program never looks inside the values it is asked to
  store; it hands them to \<open>JSON.stringify\<close>. Objects are plain records in property order.
\<close>

datatype jsval =
    JUndefined
  | JNull
  | JBool bool
  | JNum jsnum
  | JStr jstring
  | JArr "jsval list"
  | JObj "(jstring \<times> jsval) list"
  | JFun jstring
  | JCircular

datatype exn = SyntaxError | TypeError | StorageError | UserError jsval

section \<open>The text codec: \<open>JSON.stringify\<close>\<close>

definition is_high :: "u16 \<Rightarrow> bool" where
  "is_high c = (0xD800 \<le> c \<and> c \<le> 0xDBFF)"

definition is_low :: "u16 \<Rightarrow> bool" where
  "is_low c = (0xDC00 \<le> c \<and> c \<le> 0xDFFF)"

definition hex_digit :: "int \<Rightarrow> u16" where
  "hex_digit n = (if n < 10 then 0x30 + of_int n else 0x57 + of_int n)"

definition unicode_escape :: "u16 \<Rightarrow> jstring" where
  "unicode_escape c =
     [0x5C, 0x75, hex_digit (uint c div 4096), hex_digit (uint c div 256 mod 16),
      hex_digit (uint c div 16 mod 16), hex_digit (uint c mod 16)]"

text \<open>
  \<open>QuoteJSONString\<close> without the enclosing quotes. It works on code points: a high
  surrogate followed by a low one is one code point and is copied; a surrogate alone is
  escaped, as control characters are.
\<close>

fun quote_body :: "jstring \<Rightarrow> jstring" where
  "quote_body [] = []"
| "quote_body [c] =
     (if c = 0x08 then [0x5C, 0x62]
      else if c = 0x09 then [0x5C, 0x74]
      else if c = 0x0A then [0x5C, 0x6E]
      else if c = 0x0C then [0x5C, 0x66]
      else if c = 0x0D then [0x5C, 0x72]
      else if c = 0x22 then [0x5C, 0x22]
      else if c = 0x5C then [0x5C, 0x5C]
      else if c < 0x20 \<or> is_high c \<or> is_low c then unicode_escape c
      else [c])"
| "quote_body (c # d # cs) =
     (if is_high c \<and> is_low d then c # d # quote_body cs
      else quote_body [c] @ quote_body (d # cs))"

definition quote :: "jstring \<Rightarrow> jstring" where
  "quote s = [0x22] @ quote_body s @ [0x22]"

text \<open>\<open>Number::toString\<close> in radix 10.\<close>

fun digits :: "nat \<Rightarrow> jstring" where
  "digits n = (if n < 10 then [0x30 + of_nat n] else digits (n div 10) @ [0x30 + of_nat (n mod 10)])"

definition strip_zeros :: "jstring \<Rightarrow> jstring" where
  "strip_zeros ds = rev (dropWhile (\<lambda>c. c = 0x30) (rev ds))"

text \<open>
  For a positive \<open>m / 10 ^ k\<close>: \<open>s\<close> holds the significant digits and \<open>n\<close> is the position
  of the decimal point, so that the value is \<open>0.s \<times> 10 ^ n\<close>.
\<close>

definition positive_to_string :: "nat \<Rightarrow> nat \<Rightarrow> jstring" where
  "positive_to_string m k =
     (let s = strip_zeros (digits m);
          n = int (length (digits m)) - int k;
          e = n - 1
      in if int (length s) \<le> n \<and> n \<le> 21 then s @ replicate (nat n - length s) 0x30
         else if 0 < n \<and> n \<le> 21 then take (nat n) s @ [0x2E] @ drop (nat n) s
         else if - 6 < n \<and> n \<le> 0 then [0x30, 0x2E] @ replicate (nat (- n)) 0x30 @ s
         else (if length s = 1 then s else take 1 s @ [0x2E] @ drop 1 s)
              @ [0x65] @ (if 0 \<le> e then [0x2B] else [0x2D]) @ digits (nat \<bar>e\<bar>))"

fun num_to_string :: "jsnum \<Rightarrow> jstring" where
  "num_to_string NaN = u ''NaN''"
| "num_to_string PosInf = u ''Infinity''"
| "num_to_string NegInf = u ''-Infinity''"
| "num_to_string (Fin m k) =
     (if m = 0 then [0x30]
      else if m < 0 then [0x2D] @ positive_to_string (nat (- m)) k
      else positive_to_string (nat m) k)"

text \<open>
  For evaluation: the same digits computed on integers. A natural number is evaluated in
  unary, which a time stamp is too large for; with the code equations below the printer
  of numbers runs on integers throughout and prints what the definitions above say.
\<close>

definition digits_int :: "int \<Rightarrow> jstring" where
  "digits_int i = digits (nat i)"

definition positive_to_string_int :: "int \<Rightarrow> nat \<Rightarrow> jstring" where
  "positive_to_string_int i k = positive_to_string (nat i) k"

lemma digits_int_code [code]:
  "digits_int i =
     (if i < 10 then [0x30 + of_nat (nat i)]
      else digits_int (i div 10) @ [0x30 + of_nat (nat (i mod 10))])"
proof -
  have "digits (nat i) =
     (if nat i < 10 then [0x30 + of_nat (nat i)]
      else digits (nat i div 10) @ [0x30 + of_nat (nat i mod 10)])"
    by (rule digits.simps)
  moreover have "nat i < 10 \<longleftrightarrow> i < 10" by auto
  moreover have "\<not> i < 10 \<Longrightarrow> nat i div 10 = nat (i div 10) \<and> nat i mod 10 = nat (i mod 10)"
    by (simp add: nat_div_distrib nat_mod_distrib)
  ultimately show ?thesis
    unfolding digits_int_def by (simp del: digits.simps)
qed

lemma positive_to_string_int_code [code]:
  "positive_to_string_int i k =
     (let s = strip_zeros (digits_int i);
          n = int (length (digits_int i)) - int k;
          e = n - 1
      in if int (length s) \<le> n \<and> n \<le> 21 then s @ replicate (nat n - length s) 0x30
         else if 0 < n \<and> n \<le> 21 then take (nat n) s @ [0x2E] @ drop (nat n) s
         else if - 6 < n \<and> n \<le> 0 then [0x30, 0x2E] @ replicate (nat (- n)) 0x30 @ s
         else (if length s = 1 then s else take 1 s @ [0x2E] @ drop 1 s)
              @ [0x65] @ (if 0 \<le> e then [0x2B] else [0x2D]) @ digits_int \<bar>e\<bar>)"
  by (simp del: digits.simps
      add: positive_to_string_int_def positive_to_string_def digits_int_def Let_def)

lemma num_to_string_code [code]:
  "num_to_string (Fin m k) =
     (if m = 0 then [0x30]
      else if m < 0 then [0x2D] @ positive_to_string_int (- m) k
      else positive_to_string_int m k)"
  by (simp add: positive_to_string_int_def)

fun join :: "jstring \<Rightarrow> jstring list \<Rightarrow> jstring" where
  "join sep [] = []"
| "join sep [x] = x"
| "join sep (x # y # xs) = x @ sep @ join sep (y # xs)"

text \<open>
  \<open>SerializeJSONProperty\<close>: \<open>Inr None\<close> is the result \<open>undefined\<close>, which \<open>undefined\<close> and
  functions give; an array writes \<open>null\<close> for such an element and an object leaves such a
  property out. A cycle makes \<open>JSON.stringify\<close> throw a \<open>TypeError\<close>. Objects are plain
  data: a \<open>toJSON\<close> method is not run.
\<close>

fun serialize :: "jsval \<Rightarrow> exn + jstring option"
  and serialize_elements :: "jsval list \<Rightarrow> exn + jstring list"
  and serialize_properties :: "(jstring \<times> jsval) list \<Rightarrow> exn + jstring list" where
  "serialize JUndefined = Inr None"
| "serialize (JFun src) = Inr None"
| "serialize JCircular = Inl TypeError"
| "serialize JNull = Inr (Some (u ''null''))"
| "serialize (JBool b) = Inr (Some (if b then u ''true'' else u ''false''))"
| "serialize (JNum n) =
     Inr (Some (case n of Fin m k \<Rightarrow> num_to_string n | _ \<Rightarrow> u ''null''))"
| "serialize (JStr s) = Inr (Some (quote s))"
| "serialize (JArr xs) =
     (case serialize_elements xs of
        Inl e \<Rightarrow> Inl e
      | Inr ts \<Rightarrow> Inr (Some ([0x5B] @ join [0x2C] ts @ [0x5D])))"
| "serialize (JObj ps) =
     (case serialize_properties ps of
        Inl e \<Rightarrow> Inl e
      | Inr ts \<Rightarrow> Inr (Some ([0x7B] @ join [0x2C] ts @ [0x7D])))"
| "serialize_elements [] = Inr []"
| "serialize_elements (x # xs) =
     (case serialize x of
        Inl e \<Rightarrow> Inl e
      | Inr t \<Rightarrow>
          (case serialize_elements xs of
             Inl e \<Rightarrow> Inl e
           | Inr ts \<Rightarrow> Inr ((case t of None \<Rightarrow> u ''null'' | Some txt \<Rightarrow> txt) # ts)))"
| "serialize_properties [] = Inr []"
| "serialize_properties (p # ps) =
     (case serialize (snd p) of
        Inl e \<Rightarrow> Inl e
      | Inr t \<Rightarrow>
          (case serialize_properties ps of
             Inl e \<Rightarrow> Inl e
           | Inr ts \<Rightarrow>
               Inr (case t of None \<Rightarrow> ts | Some txt \<Rightarrow> (quote (fst p) @ [0x3A] @ txt) # ts)))"

definition JSON_stringify :: "jsval \<Rightarrow> exn + jstring option" where
  "JSON_stringify v = serialize v"

section \<open>The text codec: \<open>JSON.parse\<close>\<close>

datatype token =
    TLBrace | TRBrace | TLBracket | TRBracket | TColon | TComma
  | TString jstring | TNumber jsnum | TTrue | TFalse | TNull

definition is_ws :: "u16 \<Rightarrow> bool" where
  "is_ws c = (c = 0x20 \<or> c = 0x09 \<or> c = 0x0A \<or> c = 0x0D)"

definition is_digit :: "u16 \<Rightarrow> bool" where
  "is_digit c = (0x30 \<le> c \<and> c \<le> 0x39)"

definition hex_value :: "u16 \<Rightarrow> int option" where
  "hex_value c =
     (if 0x30 \<le> c \<and> c \<le> 0x39 then Some (uint c - 0x30)
      else if 0x61 \<le> c \<and> c \<le> 0x66 then Some (uint c - 0x57)
      else if 0x41 \<le> c \<and> c \<le> 0x46 then Some (uint c - 0x37)
      else None)"

definition hex4_value :: "u16 \<Rightarrow> u16 \<Rightarrow> u16 \<Rightarrow> u16 \<Rightarrow> u16 option" where
  "hex4_value a b c d =
     (case (hex_value a, hex_value b, hex_value c, hex_value d) of
        (Some w, Some x, Some y, Some z) \<Rightarrow> Some (of_int (w * 4096 + x * 256 + y * 16 + z))
      | _ \<Rightarrow> None)"

definition unescape :: "u16 \<Rightarrow> u16 option" where
  "unescape c =
     (if c = 0x22 then Some 0x22
      else if c = 0x5C then Some 0x5C
      else if c = 0x2F then Some 0x2F
      else if c = 0x62 then Some 0x08
      else if c = 0x66 then Some 0x0C
      else if c = 0x6E then Some 0x0A
      else if c = 0x72 then Some 0x0D
      else if c = 0x74 then Some 0x09
      else None)"

definition cons_char :: "u16 \<Rightarrow> (jstring \<times> jstring) option \<Rightarrow> (jstring \<times> jstring) option" where
  "cons_char c r = (case r of None \<Rightarrow> None | Some (s, rest) \<Rightarrow> Some (c # s, rest))"

text \<open>
  The characters of a string literal after its opening quote: the string they denote and
  the text after the closing quote.
\<close>

fun scan_string :: "jstring \<Rightarrow> (jstring \<times> jstring) option" where
  "scan_string [] = None"
| "scan_string (c # cs) =
     (if c = 0x22 then Some ([], cs)
      else if c = 0x5C then
        (case cs of
           [] \<Rightarrow> None
         | e # es \<Rightarrow>
             if e = 0x75 then
               (if length es < 4 then None
                else
                  (case hex4_value (es ! 0) (es ! 1) (es ! 2) (es ! 3) of
                     None \<Rightarrow> None
                   | Some v \<Rightarrow> cons_char v (scan_string (drop 4 es))))
             else
               (case unescape e of
                  None \<Rightarrow> None
                | Some v \<Rightarrow> cons_char v (scan_string es)))
      else if c < 0x20 then None
      else cons_char c (scan_string cs))"

definition digits_value :: "jstring \<Rightarrow> int" where
  "digits_value ds = foldl (\<lambda>a c. 10 * a + (uint c - 0x30)) 0 ds"

text \<open>The number denoted by the mantissa digits \<open>ds\<close>, of which the last \<open>f\<close> are the
  fraction, scaled by \<open>10 ^ e\<close>.\<close>

definition decimal :: "bool \<Rightarrow> jstring \<Rightarrow> nat \<Rightarrow> int \<Rightarrow> jsnum" where
  "decimal neg ds f e =
     (let m = (if neg then - digits_value ds else digits_value ds)
      in if int f \<le> e then fin (m * 10 ^ nat (e - int f)) 0 else fin m (nat (int f - e)))"

text \<open>An optional exponent part: its value and the text after it.\<close>

definition scan_exponent :: "jstring \<Rightarrow> (int \<times> jstring) option" where
  "scan_exponent cs =
     (case cs of
        [] \<Rightarrow> Some (0, cs)
      | c # r \<Rightarrow>
          if c = 0x65 \<or> c = 0x45 then
            (let neg = (r \<noteq> [] \<and> hd r = 0x2D);
                 r' = (if r \<noteq> [] \<and> (hd r = 0x2D \<or> hd r = 0x2B) then tl r else r);
                 es = takeWhile is_digit r'
             in if es = [] then None
                else Some (if neg then - digits_value es else digits_value es,
                           dropWhile is_digit r'))
          else Some (0, cs))"

text \<open>A JSON number: \<open>-? (0 | [1-9][0-9]*) (. [0-9]+)? ([eE] [+-]? [0-9]+)?\<close>.\<close>

definition scan_number :: "jstring \<Rightarrow> (jsnum \<times> jstring) option" where
  "scan_number cs =
     (let neg = (cs \<noteq> [] \<and> hd cs = 0x2D);
          cs1 = (if neg then tl cs else cs);
          ds = takeWhile is_digit cs1;
          cs2 = dropWhile is_digit cs1
      in if ds = [] \<or> (1 < length ds \<and> hd ds = 0x30) then None
         else
           (let has_frac = (cs2 \<noteq> [] \<and> hd cs2 = 0x2E);
                fs = (if has_frac then takeWhile is_digit (tl cs2) else []);
                cs3 = (if has_frac then dropWhile is_digit (tl cs2) else cs2)
            in if has_frac \<and> fs = [] then None
               else
                 (case scan_exponent cs3 of
                    None \<Rightarrow> None
                  | Some (e, cs4) \<Rightarrow> Some (decimal neg (ds @ fs) (length fs) e, cs4))))"

lemma cons_char_Some:
  "cons_char c r = Some (s, rest) \<longleftrightarrow> (\<exists>s'. r = Some (s', rest) \<and> s = c # s')"
  by (cases r) (auto simp: cons_char_def)

lemma scan_string_shorter: "scan_string cs = Some (s, rest) \<Longrightarrow> length rest < length cs"
proof (induction "length cs" arbitrary: cs s rest rule: less_induct)
  case less
  have IH: "length rest < length cs'"
    if "length cs' < length cs" "scan_string cs' = Some (s', rest)" for cs' s'
    using less.hyps [OF that] .
  from less.prems obtain c r where cs: "cs = c # r" by (cases cs) auto
  show ?case
  proof (cases "c = 0x22")
    case True
    with less.prems cs show ?thesis by simp
  next
    case nq: False
    show ?thesis
    proof (cases "c = 0x5C")
      case False
      with less.prems cs nq obtain s' where "scan_string r = Some (s', rest)"
        by (auto simp: cons_char_Some split: if_splits)
      from IH [OF _ this] cs show ?thesis by simp
    next
      case esc: True
      from less.prems cs nq esc obtain e es where r: "r = e # es" by (cases r) auto
      show ?thesis
      proof (cases "e = 0x75")
        case True
        with less.prems cs nq esc r obtain s' where "scan_string (drop 4 es) = Some (s', rest)"
          by (auto simp: cons_char_Some split: if_splits option.splits)
        from IH [OF _ this] cs r show ?thesis by (simp add: less_Suc_eq) arith
      next
        case False
        with less.prems cs nq esc r obtain s' where "scan_string es = Some (s', rest)"
          by (auto simp: cons_char_Some split: if_splits option.splits)
        from IH [OF _ this] cs r show ?thesis by simp
      qed
    qed
  qed
qed

lemma scan_exponent_shorter: "scan_exponent cs = Some (e, rest) \<Longrightarrow> length rest \<le> length cs"
proof -
  have drop_tl: "length (dropWhile is_digit (tl r)) \<le> length r" for r :: jstring
    using length_dropWhile_le [of is_digit "tl r"] by simp
  assume "scan_exponent cs = Some (e, rest)"
  then show ?thesis
    using drop_tl length_dropWhile_le [of is_digit]
    by (cases cs) (auto simp: scan_exponent_def Let_def le_Suc_eq split: if_splits)
qed

lemma scan_number_shorter: "scan_number cs = Some (n, rest) \<Longrightarrow> length rest < length cs"
proof -
  assume a: "scan_number cs = Some (n, rest)"
  define cs1 where "cs1 = (if cs \<noteq> [] \<and> hd cs = 0x2D then tl cs else cs)"
  define cs2 where "cs2 = dropWhile is_digit cs1"
  define cs3 where
    "cs3 = (if cs2 \<noteq> [] \<and> hd cs2 = 0x2E then dropWhile is_digit (tl cs2) else cs2)"
  have l1: "length cs1 \<le> length cs" by (simp add: cs1_def)
  from a have ds: "takeWhile is_digit cs1 \<noteq> []"
    by (auto simp: scan_number_def Let_def cs1_def split: if_splits)
  have "length (takeWhile is_digit cs1) + length cs2 = length cs1"
    unfolding cs2_def by (metis length_append takeWhile_dropWhile_id)
  with ds have l2: "length cs2 < length cs1" by (cases "takeWhile is_digit cs1") auto
  have l3: "length cs3 \<le> length cs2"
    using length_dropWhile_le [of is_digit "tl cs2"] by (auto simp: cs3_def)
  from a obtain e where "scan_exponent cs3 = Some (e, rest)"
    by (auto simp: scan_number_def Let_def cs1_def cs2_def cs3_def split: if_splits option.splits)
  from scan_exponent_shorter [OF this] l1 l2 l3 show ?thesis by simp
qed

text \<open>The token that starts with the character \<open>c\<close>, and the text after it.\<close>

definition scan_token :: "u16 \<Rightarrow> jstring \<Rightarrow> (token \<times> jstring) option" where
  "scan_token c cs =
     (if c = 0x7B then Some (TLBrace, cs)
      else if c = 0x7D then Some (TRBrace, cs)
      else if c = 0x5B then Some (TLBracket, cs)
      else if c = 0x5D then Some (TRBracket, cs)
      else if c = 0x3A then Some (TColon, cs)
      else if c = 0x2C then Some (TComma, cs)
      else if c = 0x22 then
        (case scan_string cs of
           None \<Rightarrow> None
         | Some (s, rest) \<Rightarrow> Some (TString s, rest))
      else if c = 0x2D \<or> is_digit c then
        (case scan_number (c # cs) of
           None \<Rightarrow> None
         | Some (n, rest) \<Rightarrow> Some (TNumber n, rest))
      else if c # take 3 cs = u ''true'' then Some (TTrue, drop 3 cs)
      else if c # take 4 cs = u ''false'' then Some (TFalse, drop 4 cs)
      else if c # take 3 cs = u ''null'' then Some (TNull, drop 3 cs)
      else None)"

lemma scan_token_shorter: "scan_token c cs = Some (t, rest) \<Longrightarrow> length rest \<le> length cs"
proof -
  assume a: "scan_token c cs = Some (t, rest)"
  have "rest = cs \<or> rest = drop 3 cs \<or> rest = drop 4 cs
     \<or> (\<exists>s. scan_string cs = Some (s, rest)) \<or> (\<exists>n. scan_number (c # cs) = Some (n, rest))"
    using a unfolding scan_token_def
    by (simp split: if_splits option.splits prod.splits)
  then show ?thesis
    using scan_string_shorter [of cs _ rest] scan_number_shorter [of "c # cs" _ rest]
    by (elim disjE exE) (simp_all add: less_Suc_eq_le less_imp_le)
qed

function tokens :: "jstring \<Rightarrow> token list option" where
  "tokens [] = Some []"
| "tokens (c # cs) =
     (if is_ws c then tokens cs
      else
        (case scan_token c cs of
           None \<Rightarrow> None
         | Some (t, rest) \<Rightarrow> map_option ((#) t) (tokens rest)))"
  by pat_completeness auto

termination
proof (relation "measure length", goal_cases)
  case 1
  show ?case by simp
next
  case (2 c cs)
  show ?case by simp
next
  case (3 c cs x2 t rest)
  then show ?case using scan_token_shorter [of c cs t rest] by simp
qed

text \<open>
  The grammar is recognised by a stack machine that reads one token at a time. A frame
  records an array or object under construction and what may come next.
\<close>

datatype frame =
    Top
  | Complete jsval
  | ArrOpen
  | ArrVal "jsval list"
  | ArrComma "jsval list"
  | ObjOpen
  | ObjKey "(jstring \<times> jsval) list" jstring
  | ObjColon "(jstring \<times> jsval) list" jstring
  | ObjVal "(jstring \<times> jsval) list"
  | ObjComma "(jstring \<times> jsval) list"

text \<open>Defining a property: a key that is there keeps its place and takes the new value.\<close>

fun put :: "('k \<times> 'v) list \<Rightarrow> 'k \<Rightarrow> 'v \<Rightarrow> ('k \<times> 'v) list" where
  "put [] k v = [(k, v)]"
| "put (p # ps) k v = (if fst p = k then (k, v) # ps else p # put ps k v)"

text \<open>A frame that waits for a value takes it.\<close>

fun supply_value :: "jsval \<Rightarrow> frame \<Rightarrow> frame option" where
  "supply_value v Top = Some (Complete v)"
| "supply_value v ArrOpen = Some (ArrVal [v])"
| "supply_value v (ArrComma vs) = Some (ArrVal (vs @ [v]))"
| "supply_value v (ObjColon ps k) = Some (ObjVal (put ps k v))"
| "supply_value v _ = None"

fun supply_stack :: "jsval \<Rightarrow> frame list \<Rightarrow> frame list option" where
  "supply_stack v [] = None"
| "supply_stack v (f # st) = map_option (\<lambda>f'. f' # st) (supply_value v f)"

fun wants_value :: "frame \<Rightarrow> bool" where
  "wants_value Top = True"
| "wants_value ArrOpen = True"
| "wants_value (ArrComma vs) = True"
| "wants_value (ObjColon ps k) = True"
| "wants_value _ = False"

fun step :: "token \<Rightarrow> frame list \<Rightarrow> frame list option" where
  "step t [] = None"
| "step TLBracket (f # st) = (if wants_value f then Some (ArrOpen # f # st) else None)"
| "step TLBrace (f # st) = (if wants_value f then Some (ObjOpen # f # st) else None)"
| "step TRBracket (ArrOpen # st) = supply_stack (JArr []) st"
| "step TRBracket (ArrVal vs # st) = supply_stack (JArr vs) st"
| "step TRBrace (ObjOpen # st) = supply_stack (JObj []) st"
| "step TRBrace (ObjVal ps # st) = supply_stack (JObj ps) st"
| "step TComma (ArrVal vs # st) = Some (ArrComma vs # st)"
| "step TComma (ObjVal ps # st) = Some (ObjComma ps # st)"
| "step TColon (ObjKey ps k # st) = Some (ObjColon ps k # st)"
| "step (TString s) (ObjOpen # st) = Some (ObjKey [] s # st)"
| "step (TString s) (ObjComma ps # st) = Some (ObjKey ps s # st)"
| "step (TString s) st = supply_stack (JStr s) st"
| "step (TNumber n) st = supply_stack (JNum n) st"
| "step TTrue st = supply_stack (JBool True) st"
| "step TFalse st = supply_stack (JBool False) st"
| "step TNull st = supply_stack JNull st"
| "step t st = None"

fun run :: "token list \<Rightarrow> frame list \<Rightarrow> frame list option" where
  "run [] st = Some st"
| "run (t # ts) st = (case step t st of None \<Rightarrow> None | Some st' \<Rightarrow> run ts st')"

definition JSON_parse :: "jstring \<Rightarrow> exn + jsval" where
  "JSON_parse text =
     (case tokens text of
        None \<Rightarrow> Inl SyntaxError
      | Some ts \<Rightarrow>
          (case run ts [Top] of
             Some [Complete v] \<Rightarrow> Inr v
           | _ \<Rightarrow> Inl SyntaxError))"

section \<open>Coercions\<close>

fun truthy :: "jsval \<Rightarrow> bool" where
  "truthy JUndefined = False"
| "truthy JNull = False"
| "truthy (JBool b) = b"
| "truthy (JNum n) = num_truthy n"
| "truthy (JStr s) = (s \<noteq> [])"
| "truthy _ = True"

definition has_own :: "(jstring \<times> jsval) list \<Rightarrow> jstring \<Rightarrow> bool" where
  "has_own ps k = (k \<in> set (map fst ps))"

text \<open>
  \<open>ToString\<close>. An array is joined with commas, \<open>null\<close> and \<open>undefined\<close> elements giving
  the empty string. A plain object gives \<open>[object Object]\<close> through the \<open>toString\<close> it
  inherits; when it has a property of its own named \<open>toString\<close>, which in an object read
  back from JSON text is never a function, no conversion is left and a \<open>TypeError\<close> is
  thrown. The model has no function bodies to run: it reports the same \<open>TypeError\<close> when
  that property holds a function.
\<close>

fun to_string :: "jsval \<Rightarrow> exn + jstring"
  and to_strings :: "jsval list \<Rightarrow> exn + jstring list" where
  "to_string JUndefined = Inr (u ''undefined'')"
| "to_string JNull = Inr (u ''null'')"
| "to_string (JBool b) = Inr (if b then u ''true'' else u ''false'')"
| "to_string (JNum n) = Inr (num_to_string n)"
| "to_string (JStr s) = Inr s"
| "to_string (JFun src) = Inr src"
| "to_string JCircular = Inr (u ''[object Object]'')"
| "to_string (JObj ps) =
     (if has_own ps (u ''toString'') then Inl TypeError else Inr (u ''[object Object]''))"
| "to_string (JArr xs) =
     (case to_strings xs of Inl e \<Rightarrow> Inl e | Inr ts \<Rightarrow> Inr (join [0x2C] ts))"
| "to_strings [] = Inr []"
| "to_strings (x # xs) =
     (case (if x = JUndefined \<or> x = JNull then Inr [] else to_string x) of
        Inl e \<Rightarrow> Inl e
      | Inr t \<Rightarrow> (case to_strings xs of Inl e \<Rightarrow> Inl e | Inr ts \<Rightarrow> Inr (t # ts)))"

text \<open>\<open>StringToNumber\<close>: white space is trimmed; the empty string is 0; a string that is
  no numeric literal is \<open>NaN\<close>.\<close>

definition is_str_ws :: "u16 \<Rightarrow> bool" where
  "is_str_ws c =
     (c \<in> set [0x09, 0x0A, 0x0B, 0x0C, 0x0D, 0x20, 0xA0, 0x1680, 0x2028, 0x2029, 0x202F,
                0x205F, 0x3000, 0xFEFF]
      \<or> (0x2000 \<le> c \<and> c \<le> 0x200A))"

definition trim :: "jstring \<Rightarrow> jstring" where
  "trim s = rev (dropWhile is_str_ws (rev (dropWhile is_str_ws s)))"

definition radix_value :: "int \<Rightarrow> jstring \<Rightarrow> int option" where
  "radix_value r ds =
     (if ds \<noteq> [] \<and> (\<forall>c \<in> set ds. case hex_value c of None \<Rightarrow> False | Some d \<Rightarrow> d < r)
      then Some (foldl (\<lambda>a c. r * a + the (hex_value c)) 0 ds) else None)"

definition decimal_literal :: "jstring \<Rightarrow> jsnum" where
  "decimal_literal s =
     (let neg = (s \<noteq> [] \<and> hd s = 0x2D);
          s1 = (if s \<noteq> [] \<and> (hd s = 0x2D \<or> hd s = 0x2B) then tl s else s)
      in if s1 = u ''Infinity'' then (if neg then NegInf else PosInf)
         else
           (let ds = takeWhile is_digit s1;
                s2 = dropWhile is_digit s1;
                has_point = (s2 \<noteq> [] \<and> hd s2 = 0x2E);
                fs = (if has_point then takeWhile is_digit (tl s2) else []);
                s3 = (if has_point then dropWhile is_digit (tl s2) else s2)
            in if ds = [] \<and> fs = [] then NaN
               else
                 (case scan_exponent s3 of
                    Some (e, []) \<Rightarrow> decimal neg (ds @ fs) (length fs) e
                  | _ \<Rightarrow> NaN)))"

definition string_to_number :: "jstring \<Rightarrow> jsnum" where
  "string_to_number s =
     (let t = trim s
      in if t = [] then num 0
         else if take 2 t = u ''0x'' \<or> take 2 t = u ''0X'' then
           (case radix_value 16 (drop 2 t) of None \<Rightarrow> NaN | Some n \<Rightarrow> num n)
         else if take 2 t = u ''0o'' \<or> take 2 t = u ''0O'' then
           (case radix_value 8 (drop 2 t) of None \<Rightarrow> NaN | Some n \<Rightarrow> num n)
         else if take 2 t = u ''0b'' \<or> take 2 t = u ''0B'' then
           (case radix_value 2 (drop 2 t) of None \<Rightarrow> NaN | Some n \<Rightarrow> num n)
         else decimal_literal t)"

text \<open>\<open>ToNumber\<close>; an object or array is converted to a string first.\<close>

fun to_number :: "jsval \<Rightarrow> exn + jsnum" where
  "to_number JUndefined = Inr NaN"
| "to_number JNull = Inr (num 0)"
| "to_number (JBool b) = Inr (if b then num 1 else num 0)"
| "to_number (JNum n) = Inr n"
| "to_number (JStr s) = Inr (string_to_number s)"
| "to_number v = (case to_string v of Inl e \<Rightarrow> Inl e | Inr s \<Rightarrow> Inr (string_to_number s))"

text \<open>The comparison \<open>Date.now() > v\<close>.\<close>

definition now_after :: "int \<Rightarrow> jsval \<Rightarrow> exn + bool" where
  "now_after t v = (case to_number v of Inl e \<Rightarrow> Inl e | Inr n \<Rightarrow> Inr (num_less n (num t)))"

text \<open>Reading and writing a property of a plain object.\<close>

definition prop_of :: "jsval \<Rightarrow> jstring \<Rightarrow> jsval" where
  "prop_of item k =
     (case item of
        JObj ps \<Rightarrow> (case map_of ps k of None \<Rightarrow> JUndefined | Some v \<Rightarrow> v)
      | _ \<Rightarrow> JUndefined)"

definition set_prop :: "jsval \<Rightarrow> jstring \<Rightarrow> jsval \<Rightarrow> jsval" where
  "set_prop item k v = (case item of JObj ps \<Rightarrow> JObj (put ps k v) | _ \<Rightarrow> item)"

section \<open>The obfuscator\<close>

text \<open>Spreading a string yields its code points: a surrogate pair is one element.\<close>

fun code_points :: "jstring \<Rightarrow> jstring list" where
  "code_points [] = []"
| "code_points [c] = [[c]]"
| "code_points (c # d # cs) =
     (if is_high c \<and> is_low d then [c, d] # code_points cs else [c] # code_points (d # cs))"

definition charCodeAt0 :: "jstring \<Rightarrow> jsnum" where
  "charCodeAt0 x = (case x of [] \<Rightarrow> NaN | c # cs \<Rightarrow> num (uint c))"

text \<open>
  \<open>x.charCodeAt(0) + key\<close>, as the number \<open>String.fromCharCode\<close> makes of it: when the
  key is a string, or an object (which converts to one), \<open>+\<close> concatenates.
\<close>

definition plus_key :: "jsnum \<Rightarrow> jsval \<Rightarrow> exn + jsnum" where
  "plus_key c key =
     (case key of
        JUndefined \<Rightarrow> Inr (num_add c NaN)
      | JNull \<Rightarrow> Inr (num_add c (num 0))
      | JBool b \<Rightarrow> Inr (num_add c (if b then num 1 else num 0))
      | JNum k \<Rightarrow> Inr (num_add c k)
      | _ \<Rightarrow>
          (case to_string key of
             Inl e \<Rightarrow> Inl e
           | Inr s \<Rightarrow> Inr (string_to_number (num_to_string c @ s))))"

definition minus_key :: "jsnum \<Rightarrow> jsval \<Rightarrow> exn + jsnum" where
  "minus_key c key = (case to_number key of Inl e \<Rightarrow> Inl e | Inr k \<Rightarrow> Inr (num_sub c k))"

fun map_result :: "('a \<Rightarrow> exn + 'b) \<Rightarrow> 'a list \<Rightarrow> exn + 'b list" where
  "map_result f [] = Inr []"
| "map_result f (x # xs) =
     (case f x of
        Inl e \<Rightarrow> Inl e
      | Inr y \<Rightarrow> (case map_result f xs of Inl e \<Rightarrow> Inl e | Inr ys \<Rightarrow> Inr (y # ys)))"

text \<open>What the spread \<open>[...str]\<close> of the decrypting branch yields.\<close>

fun elements_of :: "jsval \<Rightarrow> exn + jsval list" where
  "elements_of (JStr s) = Inr (map JStr (code_points s))"
| "elements_of (JArr xs) = Inr xs"
| "elements_of _ = Inl TypeError"

fun unshift_char :: "jsval \<Rightarrow> jsval \<Rightarrow> exn + u16" where
  "unshift_char key (JStr x) =
     (case minus_key (charCodeAt0 x) key of Inl e \<Rightarrow> Inl e | Inr n \<Rightarrow> Inr (toUint16 n))"
| "unshift_char key _ = Inl TypeError"

definition shift_char :: "jsval \<Rightarrow> jstring \<Rightarrow> exn + u16" where
  "shift_char key x =
     (case plus_key (charCodeAt0 x) key of Inl e \<Rightarrow> Inl e | Inr n \<Rightarrow> Inr (toUint16 n))"

text \<open>
  \<^verbatim>\<open>const obfus = (str, key, encrypt = true) =>\<close>
  \<^verbatim>\<open>  encrypt ? [...JSON.stringify(str)].map((x) => String.fromCharCode(x.charCodeAt(0) + key)).join('')\<close>
  \<^verbatim>\<open>          : JSON.parse([...str].map((x) => String.fromCharCode(x.charCodeAt(0) - key)).join(''))\<close>
\<close>

definition obfus :: "jsval \<Rightarrow> jsval \<Rightarrow> bool \<Rightarrow> exn + jsval" where
  "obfus str key encrypt =
     (if encrypt then
        (case JSON_stringify str of
           Inl e \<Rightarrow> Inl e
         | Inr None \<Rightarrow> Inl TypeError
         | Inr (Some text) \<Rightarrow>
             (case map_result (shift_char key) (code_points text) of
                Inl e \<Rightarrow> Inl e
              | Inr cs \<Rightarrow> Inr (JStr cs)))
      else
        (case elements_of str of
           Inl e \<Rightarrow> Inl e
         | Inr xs \<Rightarrow>
             (case map_result (unshift_char key) xs of
                Inl e \<Rightarrow> Inl e
              | Inr cs \<Rightarrow> JSON_parse cs)))"

section \<open>Configuration\<close>

text \<open>
  \<open>LocalStorageConfig\<close> (the declaration in \<open>types.ts\<close> is not among the sources; the fields
  are those \<open>ls.ts\<close> reads): \<open>ttl\<close> is a number, \<open>null\<close> or \<open>undefined\<close>; \<open>encrypt\<close> and
  \<open>decrypt\<close> are booleans or \<open>undefined\<close> (\<open>None\<close>); \<open>encrypter\<close> and \<open>decrypter\<close> are
  functions of the value and the secret that return or throw, or \<open>undefined\<close> (\<open>None\<close>).
\<close>

datatype ttl_opt = TtlUndefined | TtlNull | TtlNum jsnum

type_synonym crypt = "jsval \<Rightarrow> jsval \<Rightarrow> exn + jsval"

record LocalStorageConfig =
  ttl :: ttl_opt
  encrypt :: "bool option"
  decrypt :: "bool option"
  encrypter :: "crypt option"
  decrypter :: "crypt option"
  secret :: jsval
  cb :: jsval

text \<open>
  The \<open>localConfig\<close> argument of \<open>set\<close> and \<open>get\<close>. \<open>ttl\<close> and \<open>encrypt\<close> are read by
  property access, where an absent property reads as \<open>undefined\<close>. The other fields reach
  the effective configuration through the object spread \<open>{...config, ...localConfig}\<close>,
  which copies the properties \<open>localConfig\<close> has, so for them the model tells an absent
  property (\<open>Absent\<close>) from a given one (\<open>Given v\<close>, where \<open>v\<close> may be \<open>undefined\<close>).
\<close>

datatype 'a own = Absent | Given 'a

record localConfig =
  l_ttl :: ttl_opt
  l_encrypt :: "bool option"
  l_decrypt :: "bool option own"
  l_encrypter :: "crypt option own"
  l_decrypter :: "crypt option own"
  l_secret :: "jsval own"
  l_cb :: "jsval own"

definition no_override :: localConfig where
  "no_override = \<lparr> l_ttl = TtlUndefined, l_encrypt = None, l_decrypt = Absent,
     l_encrypter = Absent, l_decrypter = Absent, l_secret = Absent, l_cb = Absent \<rparr>"

fun spread :: "'a \<Rightarrow> 'a own \<Rightarrow> 'a" where
  "spread d Absent = d"
| "spread d (Given v) = v"

fun ttl_truthy :: "ttl_opt \<Rightarrow> bool" where
  "ttl_truthy (TtlNum n) = num_truthy n"
| "ttl_truthy _ = False"

text \<open>
  The effective configuration \<open>_conf\<close>, computed by the same expression in \<open>set\<close>
  (lines 67-72) and in \<open>get\<close> (lines 113-118):
  \<^verbatim>\<open>encrypt: localConfig.encrypt === false ? false : localConfig.encrypt || config.encrypt\<close>
  \<^verbatim>\<open>ttl: localConfig.ttl === null ? null : localConfig.ttl || config.ttl\<close>
\<close>

definition effective :: "LocalStorageConfig \<Rightarrow> localConfig \<Rightarrow> LocalStorageConfig" where
  "effective cfg lc =
     \<lparr> ttl = (if l_ttl lc = TtlNull then TtlNull
              else if ttl_truthy (l_ttl lc) then l_ttl lc else ttl cfg),
       encrypt = (if l_encrypt lc = Some False then Some False
                  else if l_encrypt lc = Some True then l_encrypt lc else encrypt cfg),
       decrypt = spread (decrypt cfg) (l_decrypt lc),
       encrypter = spread (encrypter cfg) (l_encrypter lc),
       decrypter = spread (decrypter cfg) (l_decrypter lc),
       secret = spread (secret cfg) (l_secret lc),
       cb = spread (cb cfg) (l_cb lc) \<rparr>"

text \<open>
  \<^verbatim>\<open>const decrypter = (str, key) => { return obfus(str, key, false); };\<close>
  The process-wide configuration at start, lines 56-62. Its \<open>encrypter\<close> is \<open>obfus\<close>,
  which \<open>set\<close> calls with two arguments, so that \<open>encrypt\<close> takes its default \<open>true\<close>.
\<close>

definition decrypter_fn :: crypt where
  "decrypter_fn str key = obfus str key False"

definition config_init :: LocalStorageConfig where
  "config_init =
     \<lparr> ttl = TtlNull, encrypt = Some False, decrypt = None,
       encrypter = Some (\<lambda>str key. obfus str key True), decrypter = Some decrypter_fn,
       secret = JNum (num 75), cb = JUndefined \<rparr>"

section \<open>The backing store and the state of the module\<close>

text \<open>
  \<open>localStorage\<close> is either unusable (absent, \<open>null\<close>, or throwing on access) or a list of
  entries with distinct keys, in the order \<open>Object.keys(localStorage)\<close> enumerates them.
  The store has no quota. An armed timer is recorded by the body of the function
  \<open>new Function\<close> built for it, its delay and the key it is passed; timers do not fire
  inside an operation. One operation reads one time: \<open>Date.now()\<close> is \<open>now env\<close>
  throughout. \<open>compiles env\<close> tells whether \<open>new Function('key', body)\<close> accepts a body,
  and \<open>NOOP env\<close> is the stand-in of \<open>helpers.ts\<close> (not among the sources) for a missing
  \<open>encrypter\<close> or \<open>decrypter\<close>. \<open>js_add env\<close>, \<open>js_mul env\<close> and \<open>js_sub env\<close> are the
  platform's \<open>+\<close>, \<open>*\<close> and \<open>-\<close> on numbers, as the program applies them to time stamps and
  TTLs (lines 76 and 170): the rounding and the overflow of doubles are the platform's,
  and nothing is assumed about them.
\<close>

datatype storage = Unavailable | Storage "(jstring \<times> jstring) list"

record timer =
  body :: jstring
  delay :: jsnum
  arg :: jstring

record state =
  hasLS :: "bool option"
  localStorage :: storage
  cbRefs :: "timer list"
  config :: LocalStorageConfig

record env =
  now :: int
  compiles :: "jstring \<Rightarrow> bool"
  NOOP :: crypt
  js_add :: "jsnum \<Rightarrow> jsnum \<Rightarrow> jsnum"
  js_mul :: "jsnum \<Rightarrow> jsnum \<Rightarrow> jsnum"
  js_sub :: "jsnum \<Rightarrow> jsnum \<Rightarrow> jsnum"

definition getItem :: "jstring \<Rightarrow> state \<Rightarrow> exn + jstring option" where
  "getItem key s =
     (case localStorage s of
        Unavailable \<Rightarrow> Inl StorageError
      | Storage kvs \<Rightarrow> Inr (map_of kvs key))"

definition setItem :: "jstring \<Rightarrow> jstring \<Rightarrow> state \<Rightarrow> (exn + unit) \<times> state" where
  "setItem key text s =
     (case localStorage s of
        Unavailable \<Rightarrow> (Inl StorageError, s)
      | Storage kvs \<Rightarrow> (Inr (), s\<lparr>localStorage := Storage (put kvs key text)\<rparr>))"

definition removeItem :: "jstring \<Rightarrow> state \<Rightarrow> (exn + unit) \<times> state" where
  "removeItem key s =
     (case localStorage s of
        Unavailable \<Rightarrow> (Inl StorageError, s)
      | Storage kvs \<Rightarrow>
          (Inr (), s\<lparr>localStorage := Storage (filter (\<lambda>p. fst p \<noteq> key) kvs)\<rparr>))"

definition keys_of :: "state \<Rightarrow> exn + jstring list" where
  "keys_of s =
     (case localStorage s of
        Unavailable \<Rightarrow> Inl StorageError
      | Storage kvs \<Rightarrow> Inr (map fst kvs))"

section \<open>The operations of \<open>ls.ts\<close>\<close>

text \<open>\<^verbatim>\<open>const APX = String.fromCharCode(0);\<close>\<close>

definition APX :: jstring where
  "APX = [0]"

text \<open>
  Modelled from the spec: \<open>isObject\<close> of \<open>helpers.ts\<close> is not among the sources. The spec
  has the TTL envelope be an object with the marker key and speaks of a stored value that
  "is itself an object": \<open>isObject\<close> holds of the plain objects and of nothing else.
\<close>

fun isObject :: "jsval \<Rightarrow> bool" where
  "isObject (JObj ps) = True"
| "isObject _ = False"

text \<open>\<^verbatim>\<open>isObject(item) && APX in item\<close>\<close>

definition is_envelope :: "jsval \<Rightarrow> bool" where
  "is_envelope item = (isObject item \<and> (case item of JObj ps \<Rightarrow> has_own ps APX | _ \<Rightarrow> False))"

text \<open>
  The callback \<open>flush\<close> runs on one key (lines 151-173). A stored text that does not parse
  is skipped. For an envelope the comparison \<open>Date.now() > item.ttl\<close> comes before
  \<open>force\<close> is looked at; an exception leaves the loop.
\<close>

definition flush_key :: "env \<Rightarrow> bool \<Rightarrow> jstring \<Rightarrow> state \<Rightarrow> (exn + unit) \<times> state" where
  "flush_key e force key s =
     (case getItem key s of
        Inl x \<Rightarrow> (Inl x, s)
      | Inr None \<Rightarrow> (Inr (), s)
      | Inr (Some str) \<Rightarrow>
          if str = [] then (Inr (), s)
          else
            (case JSON_parse str of
               Inl x \<Rightarrow> (Inr (), s)
             | Inr item \<Rightarrow>
                 if is_envelope item then
                   (case now_after (now e) (prop_of item (u ''ttl'')) of
                      Inl x \<Rightarrow> (Inl x, s)
                    | Inr expired \<Rightarrow>
                        if expired \<or> force then removeItem key s
                        else if truthy (prop_of item (u ''cb'')) then
                          (case to_string (prop_of item (u ''cb'')) of
                             Inl x \<Rightarrow> (Inl x, s)
                           | Inr src \<Rightarrow>
                               if compiles e (u ''localStorage.removeItem(key);('' @ src @ u '')(key)'')
                               then
                                 (case to_number (prop_of item (u ''ttl'')) of
                                    Inl x \<Rightarrow> (Inl x, s)
                                  | Inr t \<Rightarrow>
                                      (Inr (),
                                       s\<lparr>cbRefs := cbRefs s @
                                           [\<lparr> body = u ''localStorage.removeItem(key);('' @ src @ u '')(key)'',
                                              delay = js_sub e t (num (now e)),
                                              arg = key \<rparr>]\<rparr>))
                               else (Inl SyntaxError, s))
                        else (Inr (), s))
                 else (Inr (), s)))"

fun flush_keys :: "env \<Rightarrow> bool \<Rightarrow> jstring list \<Rightarrow> state \<Rightarrow> (exn + unit) \<times> state" where
  "flush_keys e force [] s = (Inr (), s)"
| "flush_keys e force (key # ks) s =
     (case flush_key e force key s of
        (Inl x, s') \<Rightarrow> (Inl x, s')
      | (Inr _, s') \<Rightarrow> flush_keys e force ks s')"

text \<open>The body of \<open>flush\<close> below its guard: \<open>Object.keys(localStorage).forEach(...)\<close>.\<close>

definition flush_store :: "env \<Rightarrow> bool \<Rightarrow> state \<Rightarrow> (exn + jsval) \<times> state" where
  "flush_store e force s =
     (case keys_of s of
        Inl x \<Rightarrow> (Inl x, s)
      | Inr ks \<Rightarrow>
          (case flush_keys e force ks s of
             (Inl x, s') \<Rightarrow> (Inl x, s')
           | (Inr _, s') \<Rightarrow> (Inr JUndefined, s')))"

text \<open>
  \<open>supportsLS\<close> calls \<open>poll\<close>, \<open>poll\<close> calls \<open>flush\<close>, and \<open>flush\<close> calls \<open>supportsLS\<close>
  again. On that inner call \<open>hasLS\<close> is already set, so it returns the flag at once:
  \<open>flush_probed\<close> is \<open>flush\<close> with this inner call reduced to reading \<open>hasLS\<close>, and
  \<open>supportsLS\<close> uses it for its \<open>poll()\<close>. The flag is \<open>false\<close> when \<open>localStorage\<close> is
  falsy and when the access throws.
\<close>

definition flush_probed :: "env \<Rightarrow> bool \<Rightarrow> state \<Rightarrow> (exn + jsval) \<times> state" where
  "flush_probed e force s =
     (if hasLS s = Some True then flush_store e force s else (Inr (JBool False), s))"

definition supportsLS :: "env \<Rightarrow> state \<Rightarrow> (exn + bool) \<times> state" where
  "supportsLS e s =
     (case hasLS s of
        Some b \<Rightarrow> (Inr b, s)
      | None \<Rightarrow>
          (case flush_probed e False
                  (s\<lparr>hasLS := Some (localStorage s \<noteq> Unavailable), cbRefs := []\<rparr>) of
             (Inl x, s') \<Rightarrow> (Inl x, s')
           | (Inr _, s') \<Rightarrow> (Inr (localStorage s \<noteq> Unavailable), s')))"

definition flush :: "env \<Rightarrow> bool \<Rightarrow> state \<Rightarrow> (exn + jsval) \<times> state" where
  "flush e force s =
     (case supportsLS e s of
        (Inl x, s') \<Rightarrow> (Inl x, s')
      | (Inr b, s') \<Rightarrow> if \<not> b then (Inr (JBool False), s') else flush_store e force s')"

text \<open>\<open>poll\<close> cancels the timers, empties the registry and flushes. It has no \<open>return\<close>:
  what \<open>flush\<close> returns is dropped and the result is \<open>undefined\<close>.\<close>

definition poll :: "env \<Rightarrow> bool \<Rightarrow> state \<Rightarrow> (exn + jsval) \<times> state" where
  "poll e forceFlush s =
     (case flush e forceFlush (s\<lparr>cbRefs := []\<rparr>) of
        (Inl x, s') \<Rightarrow> (Inl x, s')
      | (Inr _, s') \<Rightarrow> (Inr JUndefined, s'))"

fun hasTTL_of :: "ttl_opt \<Rightarrow> bool" where
  "hasTTL_of (TtlNum n) = (num_truthy n \<and> \<not> isNaN n \<and> num_less (num 0) n)"
| "hasTTL_of _ = False"

fun ttl_number :: "ttl_opt \<Rightarrow> jsnum" where
  "ttl_number (TtlNum n) = n"
| "ttl_number _ = NaN"

definition crypt_or_NOOP :: "env \<Rightarrow> crypt option \<Rightarrow> crypt" where
  "crypt_or_NOOP e f = (case f of None \<Rightarrow> NOOP e | Some g \<Rightarrow> g)"

text \<open>The value to serialise, lines 75-93: the envelope when a TTL applies, the encrypter
  run on the payload alone, the callback text added last.\<close>

definition set_value :: "env \<Rightarrow> jsval \<Rightarrow> LocalStorageConfig \<Rightarrow> exn + jsval" where
  "set_value e v conf =
     (let hasTTL = hasTTL_of (ttl conf);
          val = (if hasTTL
                 then JObj [(APX, v),
                            (u ''ttl'', JNum (js_add e (num (now e))
                                               (js_mul e (ttl_number (ttl conf)) (num 1000))))]
                 else v)
      in case (if encrypt conf = Some True then
                 (if hasTTL then
                    (case crypt_or_NOOP e (encrypter conf) (prop_of val APX) (secret conf) of
                       Inl x \<Rightarrow> Inl x
                     | Inr r \<Rightarrow> Inr (set_prop val APX r))
                  else crypt_or_NOOP e (encrypter conf) val (secret conf))
               else Inr val) of
           Inl x \<Rightarrow> Inl x
         | Inr val' \<Rightarrow>
             Inr (case cb conf of
                    JFun src \<Rightarrow> if hasTTL then set_prop val' (u ''cb'') (JStr src) else val'
                  | _ \<Rightarrow> val'))"

text \<open>The \<open>try\<close> block of \<open>set\<close>, lines 74-97. \<open>setItem\<close> stores the string of its
  argument, which for \<open>undefined\<close> is \<open>undefined\<close> spelt out.\<close>

definition set_try :: "env \<Rightarrow> jstring \<Rightarrow> jsval \<Rightarrow> LocalStorageConfig \<Rightarrow> state \<Rightarrow> (exn + unit) \<times> state" where
  "set_try e key v conf s =
     (case set_value e v conf of
        Inl x \<Rightarrow> (Inl x, s)
      | Inr val \<Rightarrow>
          (case JSON_stringify val of
             Inl x \<Rightarrow> (Inl x, s)
           | Inr t \<Rightarrow>
               (case setItem key (case t of None \<Rightarrow> u ''undefined'' | Some text \<Rightarrow> text) s of
                  (Inl x, s') \<Rightarrow> (Inl x, s')
                | (Inr _, s') \<Rightarrow>
                    if hasTTL_of (ttl conf) then
                      (case poll e False s' of
                         (Inl x, s'') \<Rightarrow> (Inl x, s'')
                       | (Inr _, s'') \<Rightarrow> (Inr (), s''))
                    else (Inr (), s'))))"

text \<open>\<open>set\<close>: \<open>false\<close> when the store is unusable or the \<open>try\<close> block threw, else
  \<open>undefined\<close>.\<close>

definition ls_set :: "env \<Rightarrow> jstring \<Rightarrow> jsval \<Rightarrow> localConfig \<Rightarrow> state \<Rightarrow> (exn + jsval) \<times> state" where
  "ls_set e key v lc s =
     (case supportsLS e s of
        (Inl x, s') \<Rightarrow> (Inl x, s')
      | (Inr b, s') \<Rightarrow>
          if \<not> b then (Inr (JBool False), s')
          else
            (case set_try e key v (effective (config s') lc) s' of
               (Inl x, s'') \<Rightarrow> (Inr (JBool False), s'')
             | (Inr _, s'') \<Rightarrow> (Inr JUndefined, s'')))"

text \<open>Lines 120-134 of \<open>get\<close>: the item after the attempt to decrypt. An exception of the
  decrypter is swallowed and leaves the item as parsed.\<close>

definition decrypted :: "env \<Rightarrow> LocalStorageConfig \<Rightarrow> jsval \<Rightarrow> jsval" where
  "decrypted e conf item =
     (if decrypt conf = Some True \<or> encrypt conf = Some True then
        (if is_envelope item then
           (case crypt_or_NOOP e (decrypter conf) (prop_of item APX) (secret conf) of
              Inl x \<Rightarrow> item
            | Inr r \<Rightarrow> set_prop item APX r)
         else
           (case crypt_or_NOOP e (decrypter conf) item (secret conf) of
              Inl x \<Rightarrow> item
            | Inr r \<Rightarrow> r))
      else item)"

definition ls_get :: "env \<Rightarrow> jstring \<Rightarrow> localConfig \<Rightarrow> state \<Rightarrow> (exn + jsval) \<times> state" where
  "ls_get e key lc s =
     (case supportsLS e s of
        (Inl x, s') \<Rightarrow> (Inl x, s')
      | (Inr b, s') \<Rightarrow>
          if \<not> b then (Inr JNull, s')
          else
            (case getItem key s' of
               Inl x \<Rightarrow> (Inl x, s')
             | Inr None \<Rightarrow> (Inr JNull, s')
             | Inr (Some str) \<Rightarrow>
                 if str = [] then (Inr JNull, s')
                 else
                   (case JSON_parse str of
                      Inl x \<Rightarrow> (Inl x, s')
                    | Inr parsed \<Rightarrow>
                        (let item = decrypted e (effective (config s') lc) parsed
                         in if \<not> is_envelope parsed then (Inr item, s')
                            else
                              (case now_after (now e) (prop_of item (u ''ttl'')) of
                                 Inl x \<Rightarrow> (Inl x, s')
                               | Inr expired \<Rightarrow>
                                   if expired then
                                     (case removeItem key s' of
                                        (Inl x, s'') \<Rightarrow> (Inl x, s'')
                                      | (Inr _, s'') \<Rightarrow> (Inr JNull, s''))
                                   else (Inr (prop_of item APX), s'))))))"

definition ls_remove :: "env \<Rightarrow> jstring \<Rightarrow> state \<Rightarrow> (exn + jsval) \<times> state" where
  "ls_remove e key s =
     (case supportsLS e s of
        (Inl x, s') \<Rightarrow> (Inl x, s')
      | (Inr b, s') \<Rightarrow>
          if \<not> b then (Inr (JBool False), s')
          else
            (case removeItem key s' of
               (Inl x, s'') \<Rightarrow> (Inl x, s'')
             | (Inr _, s'') \<Rightarrow> (Inr JUndefined, s'')))"

definition ls_clear :: "env \<Rightarrow> state \<Rightarrow> (exn + jsval) \<times> state" where
  "ls_clear e s =
     (case supportsLS e s of
        (Inl x, s') \<Rightarrow> (Inl x, s')
      | (Inr b, s') \<Rightarrow>
          if \<not> b then (Inr (JBool False), s')
          else
            (case localStorage s' of
               Unavailable \<Rightarrow> (Inl StorageError, s')
             | Storage kvs \<Rightarrow> (Inr JUndefined, s'\<lparr>localStorage := Storage []\<rparr>)))"

text \<open>
  The TTL envelope in the words of the specification, not of the code: an object that
  has the marker key, "the marker key is a single NUL character". \<open>envelope_text\<close> holds of
  a stored text that parses to one. \<open>ttl_readable\<close> holds of a stored text whose \<open>ttl\<close>
  field, when the text parses, converts to a number without an exception.
\<close>

fun ttl_envelope :: "jsval \<Rightarrow> bool" where
  "ttl_envelope (JObj ps) = ([0] \<in> set (map fst ps))"
| "ttl_envelope _ = False"

definition envelope_text :: "jstring \<Rightarrow> bool" where
  "envelope_text str = (case JSON_parse str of Inl x \<Rightarrow> False | Inr item \<Rightarrow> ttl_envelope item)"

definition ttl_readable :: "jstring \<Rightarrow> bool" where
  "ttl_readable str =
     (case JSON_parse str of
        Inl x \<Rightarrow> True
      | Inr item \<Rightarrow> (case to_number (prop_of item (u ''ttl'')) of Inl x \<Rightarrow> False | Inr n \<Rightarrow> True))"

section \<open>The round trip through the text codec\<close>

text \<open>
  What \<open>JSON.parse(JSON.stringify(v))\<close> is expected to give: \<open>undefined\<close> and functions are
  dropped from objects and become \<open>null\<close> in arrays, \<open>NaN\<close> and the infinities become
  \<open>null\<close>, and everything else, \<open>null\<close> included, is kept. \<open>plain\<close> holds of the values whose
  objects have distinct keys and whose numbers are in normal form (a mantissa that does
  not end in zero unless the number is whole), as every object and number of a running
  program is.
\<close>

fun dropped :: "jsval \<Rightarrow> bool" where
  "dropped JUndefined = True"
| "dropped (JFun src) = True"
| "dropped _ = False"

fun round_trip :: "jsval \<Rightarrow> jsval"
  and round_trip_elements :: "jsval list \<Rightarrow> jsval list"
  and round_trip_properties :: "(jstring \<times> jsval) list \<Rightarrow> (jstring \<times> jsval) list" where
  "round_trip (JArr xs) = JArr (round_trip_elements xs)"
| "round_trip (JObj ps) = JObj (round_trip_properties ps)"
| "round_trip (JNum n) = (case n of Fin m k \<Rightarrow> JNum n | _ \<Rightarrow> JNull)"
| "round_trip v = v"
| "round_trip_elements [] = []"
| "round_trip_elements (x # xs) =
     (if dropped x then JNull else round_trip x) # round_trip_elements xs"
| "round_trip_properties [] = []"
| "round_trip_properties (p # ps) =
     (if dropped (snd p) then round_trip_properties ps
      else (fst p, round_trip (snd p)) # round_trip_properties ps)"

fun plain :: "jsval \<Rightarrow> bool"
  and plain_elements :: "jsval list \<Rightarrow> bool"
  and plain_properties :: "(jstring \<times> jsval) list \<Rightarrow> bool" where
  "plain (JArr xs) = plain_elements xs"
| "plain (JObj ps) = (distinct (map fst ps) \<and> plain_properties ps)"
| "plain (JNum n) = (case n of Fin m k \<Rightarrow> k = 0 \<or> m mod 10 \<noteq> 0 | _ \<Rightarrow> True)"
| "plain v = True"
| "plain_elements [] = True"
| "plain_elements (x # xs) = (plain x \<and> plain_elements xs)"
| "plain_properties [] = True"
| "plain_properties (p # ps) = (plain (snd p) \<and> plain_properties ps)"

section \<open>Auxiliary notions for the proofs about the codec\<close>

text \<open>
  \<open>delimited\<close>: what may follow a value inside a JSON text. \<open>render\<close>: a number literal
  from its integer digits, fraction digits and exponent part. \<open>reads_as tk t w\<close>: the text
  \<open>t\<close> is lexed to the tokens \<open>tk\<close> whatever delimited text follows, and the stack machine
  run on \<open>tk\<close> hands the value \<open>w\<close> to the frame that waits for it.
\<close>

definition delimited :: "jstring \<Rightarrow> bool" where
  "delimited rest = (rest = [] \<or> hd rest = 0x2C \<or> hd rest = 0x5D \<or> hd rest = 0x7D)"

definition stops :: "jstring \<Rightarrow> bool" where
  "stops rest = (rest = [] \<or> \<not> is_digit (hd rest))"

definition render :: "jstring \<Rightarrow> jstring \<Rightarrow> jstring \<Rightarrow> jstring" where
  "render ds fs ex = ds @ (if fs = [] then [] else 0x2E # fs) @ ex"

definition exponent_of :: "jstring \<Rightarrow> int \<Rightarrow> bool" where
  "exponent_of ex ev =
     (ex = [] \<and> ev = 0
      \<or> (\<exists>es. es \<noteq> [] \<and> (\<forall>c \<in> set es. is_digit c)
            \<and> (ex = 0x65 # 0x2B # es \<and> ev = digits_value es
               \<or> ex = 0x65 # 0x2D # es \<and> ev = - digits_value es)))"

definition reads_as :: "token list \<Rightarrow> jstring \<Rightarrow> jsval \<Rightarrow> bool" where
  "reads_as tk t w =
     ((\<forall>rest r. delimited rest \<longrightarrow> tokens rest = Some r \<longrightarrow> tokens (t @ rest) = Some (tk @ r))
      \<and> (\<forall>ts f f' st. supply_value w f = Some f' \<longrightarrow> run (tk @ ts) (f # st) = run ts (f' # st)))"

definition reads :: "jstring \<Rightarrow> jsval \<Rightarrow> bool" where
  "reads t w = (\<exists>tk. reads_as tk t w)"

definition member :: "jstring \<Rightarrow> jstring \<times> jsval \<Rightarrow> bool" where
  "member m kw = (\<exists>t. m = quote (fst kw) @ 0x3A # t \<and> reads t (snd kw))"

definition puts :: "(jstring \<times> jsval) list \<Rightarrow> (jstring \<times> jsval) list \<Rightarrow> (jstring \<times> jsval) list" where
  "puts ps kws = foldl (\<lambda>qs kw. put qs (fst kw) (snd kw)) ps kws"

section \<open>Sample environments and states\<close>

text \<open>The sample environment at time \<open>t\<close>. Its arithmetic is the one without rounding; the
  samples below apply it to whole numbers far below \<open>2 ^ 53\<close>, where doubles give the same.\<close>

definition env_at :: "int \<Rightarrow> env" where
  "env_at t = \<lparr> now = t, compiles = (\<lambda>b. True), NOOP = (\<lambda>v k. Inr JUndefined),
     js_add = num_add, js_mul = num_mul, js_sub = num_sub \<rparr>"

text \<open>A module that has probed a usable store, and one that has not probed yet.\<close>

definition probed :: "(jstring \<times> jstring) list \<Rightarrow> state" where
  "probed kvs = \<lparr> hasLS = Some True, localStorage = Storage kvs, cbRefs = [], config = config_init \<rparr>"

definition fresh :: "(jstring \<times> jstring) list \<Rightarrow> state" where
  "fresh kvs = \<lparr> hasLS = None, localStorage = Storage kvs, cbRefs = [], config = config_init \<rparr>"

section \<open>Properties\<close>

subsection \<open>Merging the call-level override with the process-wide configuration\<close>

text \<open>
  C2, as stated, at two overrides over a process configuration with a TTL of 60 seconds and
  the secret 75. A \<open>ttl\<close> override of \<open>0\<close>: the claim lets the override win, the code falls
  back to the default, since \<open>0\<close> is falsy in \<open>localConfig.ttl || config.ttl\<close>. A \<open>secret\<close>
  override that is present and holds \<open>undefined\<close>: the claim lets it fall back to the
  default, the code takes \<open>undefined\<close>, since the spread \<open>...localConfig\<close> copies every
  property the override has.
\<close>

theorem effective_ttl_zero_counterexample:
  "ttl (effective \<lparr> ttl = TtlNum (num 60), encrypt = Some False, decrypt = None,
          encrypter = None, decrypter = None, secret = JNum (num 75), cb = JUndefined \<rparr>
        (no_override \<lparr> l_ttl := TtlNum (num 0) \<rparr>)) = TtlNum (num 60)
   \<and> TtlNum (num 0) \<noteq> TtlNum (num 60)
   \<and> secret (effective \<lparr> ttl = TtlNum (num 60), encrypt = Some False, decrypt = None,
          encrypter = None, decrypter = None, secret = JNum (num 75), cb = JUndefined \<rparr>
        (no_override \<lparr> l_secret := Given JUndefined \<rparr>)) = JUndefined
   \<and> JUndefined \<noteq> JNum (num 75)"
  by (simp add: effective_def no_override_def num_def)

text \<open>
  C2, amended: in the effective configuration of \<open>set\<close> and \<open>get\<close>, an override of
  \<open>false\<close> for \<open>encrypt\<close> or of \<open>null\<close> for \<open>ttl\<close> disables the process default; for
  \<open>encrypt\<close> and \<open>ttl\<close> an \<open>undefined\<close> or omitted override falls back to the process
  default, and so does a \<open>ttl\<close> override of zero or \<open>NaN\<close>; an override of \<open>true\<close> for
  \<open>encrypt\<close>, or of a number other than zero and \<open>NaN\<close> for \<open>ttl\<close>, wins over the default;
  for each of the other fields (\<open>decrypt\<close>, \<open>encrypter\<close>, \<open>decrypter\<close>, \<open>secret\<close>, \<open>cb\<close>) an
  omitted override falls back to the process default and an override that is present
  wins, whatever its value, \<open>undefined\<close> included.
\<close>

theorem effective_precedence:
  "(l_encrypt lc = Some False \<longrightarrow> encrypt (effective cfg lc) = Some False)
   \<and> (l_ttl lc = TtlNull \<longrightarrow> ttl (effective cfg lc) = TtlNull)
   \<and> (l_encrypt lc = None \<longrightarrow> encrypt (effective cfg lc) = encrypt cfg)
   \<and> (l_ttl lc = TtlUndefined \<longrightarrow> ttl (effective cfg lc) = ttl cfg)
   \<and> (l_encrypt lc = Some True \<longrightarrow> encrypt (effective cfg lc) = Some True)
   \<and> (l_ttl lc = TtlNum n \<and> num_truthy n \<longrightarrow> ttl (effective cfg lc) = TtlNum n)
   \<and> (l_ttl lc = TtlNum n \<and> \<not> num_truthy n \<longrightarrow> ttl (effective cfg lc) = ttl cfg)
   \<and> (l_decrypt lc = Absent \<longrightarrow> decrypt (effective cfg lc) = decrypt cfg)
   \<and> (l_decrypt lc = Given d \<longrightarrow> decrypt (effective cfg lc) = d)
   \<and> (l_encrypter lc = Absent \<longrightarrow> encrypter (effective cfg lc) = encrypter cfg)
   \<and> (l_encrypter lc = Given f \<longrightarrow> encrypter (effective cfg lc) = f)
   \<and> (l_decrypter lc = Absent \<longrightarrow> decrypter (effective cfg lc) = decrypter cfg)
   \<and> (l_decrypter lc = Given g \<longrightarrow> decrypter (effective cfg lc) = g)
   \<and> (l_secret lc = Absent \<longrightarrow> secret (effective cfg lc) = secret cfg)
   \<and> (l_secret lc = Given k \<longrightarrow> secret (effective cfg lc) = k)
   \<and> (l_cb lc = Absent \<longrightarrow> cb (effective cfg lc) = cb cfg)
   \<and> (l_cb lc = Given c \<longrightarrow> cb (effective cfg lc) = c)"
  by (simp add: effective_def)

theorem effective_precedence_witness:
  "ttl (effective \<lparr> ttl = TtlNum (num 60), encrypt = Some True, decrypt = None,
          encrypter = None, decrypter = None, secret = JNum (num 75), cb = JUndefined \<rparr>
        (no_override \<lparr> l_ttl := TtlNum (num 5), l_encrypt := Some False,
           l_secret := Given (JNum (num 3)) \<rparr>)) = TtlNum (num 5)
   \<and> encrypt (effective \<lparr> ttl = TtlNum (num 60), encrypt = Some True, decrypt = None,
          encrypter = None, decrypter = None, secret = JNum (num 75), cb = JUndefined \<rparr>
        (no_override \<lparr> l_ttl := TtlNum (num 5), l_encrypt := Some False,
           l_secret := Given (JNum (num 3)) \<rparr>)) = Some False
   \<and> secret (effective \<lparr> ttl = TtlNum (num 60), encrypt = Some True, decrypt = None,
          encrypter = None, decrypter = None, secret = JNum (num 75), cb = JUndefined \<rparr>
        (no_override \<lparr> l_ttl := TtlNum (num 5), l_encrypt := Some False,
           l_secret := Given (JNum (num 3)) \<rparr>)) = JNum (num 3)
   \<and> cb (effective \<lparr> ttl = TtlNum (num 60), encrypt = Some True, decrypt = None,
          encrypter = None, decrypter = None, secret = JNum (num 75), cb = JUndefined \<rparr>
        (no_override \<lparr> l_ttl := TtlNum (num 5), l_encrypt := Some False,
           l_secret := Given (JNum (num 3)) \<rparr>)) = JUndefined"
  using effective_precedence [of "no_override \<lparr> l_ttl := TtlNum (num 5), l_encrypt := Some False,
           l_secret := Given (JNum (num 3)) \<rparr>"
      "\<lparr> ttl = TtlNum (num 60), encrypt = Some True, decrypt = None,
          encrypter = None, decrypter = None, secret = JNum (num 75), cb = JUndefined \<rparr>"
      "num 5" _ _ _ "JNum (num 3)"]
  by (simp add: no_override_def num_def)

subsection \<open>The availability probe\<close>

lemma u_Nil [simp]: "u s = [] \<longleftrightarrow> s = []"
  by (simp add: u_def)

lemma APX_neq [simp]: "APX \<noteq> u ''ttl''" "APX \<noteq> u ''cb''" "u ''ttl'' \<noteq> u ''cb''"
  "u ''ttl'' \<noteq> APX" "u ''cb'' \<noteq> APX" "u ''cb'' \<noteq> u ''ttl''"
  by (simp_all add: APX_def u_def)

lemma is_envelope_iff: "is_envelope item = ttl_envelope item"
  by (cases item) (simp_all add: is_envelope_def has_own_def APX_def)

lemma map_of_put: "map_of (put ps k v) k' = (if k' = k then Some v else map_of ps k')"
  by (induction ps) auto


lemma parse_nonempty: "JSON_parse str = Inr item \<Longrightarrow> str \<noteq> []"
  by (auto simp: JSON_parse_def)

lemma supportsLS_probed: "hasLS s = Some b \<Longrightarrow> supportsLS e s = (Inr b, s)"
  by (simp add: supportsLS_def)

lemma removeItem_fields:
  "removeItem key s = (r, s') \<Longrightarrow> hasLS s' = hasLS s \<and> config s' = config s \<and> cbRefs s' = cbRefs s"
  by (auto simp: removeItem_def split: storage.splits)

lemma flush_key_fields:
  "flush_key e force key s = (r, s') \<Longrightarrow> hasLS s' = hasLS s \<and> config s' = config s"
  unfolding flush_key_def
  by (auto split: sum.splits option.splits if_splits dest: removeItem_fields)

lemma flush_keys_fields:
  "flush_keys e force ks s = (r, s') \<Longrightarrow> hasLS s' = hasLS s \<and> config s' = config s"
proof (induction ks arbitrary: s)
  case Nil
  then show ?case by simp
next
  case (Cons k ks)
  obtain r1 s1 where k: "flush_key e force k s = (r1, s1)" by (cases "flush_key e force k s")
  show ?case
  proof (cases r1)
    case (Inl x)
    with Cons.prems k flush_key_fields [OF k] show ?thesis by simp
  next
    case (Inr y)
    with Cons.prems k have "flush_keys e force ks s1 = (r, s')" by simp
    from Cons.IH [OF this] flush_key_fields [OF k] show ?thesis by simp
  qed
qed

lemma flush_store_fields:
  "flush_store e force s = (r, s') \<Longrightarrow> hasLS s' = hasLS s \<and> config s' = config s"
  unfolding flush_store_def
  by (auto split: sum.splits prod.splits dest: flush_keys_fields)

lemma supportsLS_state:
  "supportsLS e s = (Inr True, s1) \<Longrightarrow>
     hasLS s1 = Some True \<and> config s1 = config s \<and> (hasLS s = Some True \<longrightarrow> s1 = s)"
  unfolding supportsLS_def flush_probed_def
  by (auto split: option.splits sum.splits prod.splits if_splits dest: flush_store_fields)

subsection \<open>Exceptions that reach the caller\<close>

lemma parse_hello: "JSON_parse (u ''hello'') = Inl SyntaxError"
  by code_simp

text \<open>
  C1, at a stored text that is not JSON: \<open>get\<close> parses the text outside any \<open>try\<close> block
  (line 120), and the \<open>SyntaxError\<close> reaches the caller.
\<close>

theorem get_foreign_entry_raises:
  "ls_get (env_at 1000) (u ''k'') no_override (probed [(u ''k'', u ''hello'')])
     = (Inl SyntaxError, probed [(u ''k'', u ''hello'')])"
  by (simp add: ls_get_def supportsLS_def probed_def getItem_def parse_hello)

subsection \<open>Reading an entry\<close>

lemma ls_get_parsed:
  assumes "supportsLS e s = (Inr True, s1)" and "getItem key s1 = Inr (Some str)"
    and "JSON_parse str = Inr parsed"
  shows "ls_get e key lc s =
     (if \<not> is_envelope parsed then (Inr (decrypted e (effective (config s1) lc) parsed), s1)
      else
        (case now_after (now e) (prop_of (decrypted e (effective (config s1) lc) parsed) (u ''ttl'')) of
           Inl x \<Rightarrow> (Inl x, s1)
         | Inr expired \<Rightarrow>
             if expired then (Inr JNull, snd (removeItem key s1))
             else (Inr (prop_of (decrypted e (effective (config s1) lc) parsed) APX), s1)))"
proof -
  from assms(2) obtain kvs where "localStorage s1 = Storage kvs"
    by (auto simp: getItem_def split: storage.splits)
  then obtain s2 where r: "removeItem key s1 = (Inr (), s2)"
    by (simp add: removeItem_def)
  show ?thesis
    using assms parse_nonempty [OF assms(3)]
    by (simp add: ls_get_def Let_def r split: sum.splits)
qed




lemma decrypted_off:
  "decrypt conf \<noteq> Some True \<Longrightarrow> encrypt conf \<noteq> Some True \<Longrightarrow> decrypted e conf item = item"
  by (simp add: decrypted_def)












subsection \<open>Writing an entry\<close>










subsection \<open>The forced flush\<close>

lemma flush_key_force:
  assumes "localStorage s = Storage kvs"
    and "\<forall>str. map_of kvs key = Some str \<and> envelope_text str \<longrightarrow> ttl_readable str"
  shows "flush_key e True key s =
     (Inr (), if (case map_of kvs key of None \<Rightarrow> False | Some str \<Rightarrow> envelope_text str)
              then s\<lparr>localStorage := Storage (filter (\<lambda>p. fst p \<noteq> key) kvs)\<rparr> else s)"
proof (cases "map_of kvs key")
  case None
  with assms(1) show ?thesis by (simp add: flush_key_def getItem_def)
next
  case (Some str)
  show ?thesis
  proof (cases "envelope_text str")
    case True
    with assms(2) Some have "ttl_readable str" by simp
    with True obtain item n where "JSON_parse str = Inr item" "is_envelope item" "str \<noteq> []"
      "to_number (prop_of item (u ''ttl'')) = Inr n"
      by (auto simp: envelope_text_def ttl_readable_def is_envelope_iff split: sum.splits
          dest: parse_nonempty)
    with Some True assms(1) show ?thesis
      by (simp add: flush_key_def getItem_def removeItem_def now_after_def)
  next
    case False
    with Some assms(1) show ?thesis
      by (auto simp: flush_key_def getItem_def envelope_text_def is_envelope_iff split: sum.splits)
  qed
qed

lemma flush_keys_force:
  assumes "localStorage s = Storage kvs" and "distinct (map fst kvs)"
    and "\<forall>p \<in> set kvs. envelope_text (snd p) \<longrightarrow> ttl_readable (snd p)"
  shows "flush_keys e True ks s =
     (Inr (), s\<lparr>localStorage :=
                 Storage (filter (\<lambda>p. \<not> (fst p \<in> set ks \<and> envelope_text (snd p))) kvs)\<rparr>)"
  using assms
proof (induction ks arbitrary: s kvs)
  case Nil
  then show ?case by simp
next
  case (Cons k ks)
  have at_k: "snd p = str" if "p \<in> set kvs" "fst p = k" "map_of kvs k = Some str" for p str
  proof -
    from that(1,2) have "(k, snd p) \<in> set kvs" by (cases p) auto
    with Cons.prems(2) have "map_of kvs k = Some (snd p)" by (rule map_of_is_SomeI)
    with that(3) show ?thesis by simp
  qed
  have rd: "\<forall>str. map_of kvs k = Some str \<and> envelope_text str \<longrightarrow> ttl_readable str"
    using Cons.prems(3) by (auto dest!: map_of_SomeD)
  note fk = flush_key_force [OF Cons.prems(1) rd, of e]
  show ?case
  proof (cases "case map_of kvs k of None \<Rightarrow> False | Some str \<Rightarrow> envelope_text str")
    case True
    then obtain str where ms: "map_of kvs k = Some str" "envelope_text str"
      by (auto split: option.splits)
    let ?kvs = "filter (\<lambda>p. fst p \<noteq> k) kvs"
    let ?s = "s\<lparr>localStorage := Storage ?kvs\<rparr>"
    have 1: "flush_key e True k s = (Inr (), ?s)" using fk True by simp
    have 2: "flush_keys e True ks ?s =
       (Inr (), ?s\<lparr>localStorage :=
                    Storage (filter (\<lambda>p. \<not> (fst p \<in> set ks \<and> envelope_text (snd p))) ?kvs)\<rparr>)"
      using Cons.prems by (intro Cons.IH) (auto simp: distinct_map_filter)
    have 3: "filter (\<lambda>p. \<not> (fst p \<in> set ks \<and> envelope_text (snd p))) ?kvs
           = filter (\<lambda>p. \<not> (fst p \<in> set (k # ks) \<and> envelope_text (snd p))) kvs"
      unfolding filter_filter
      by (rule filter_cong) (use ms at_k in auto)
    show ?thesis using 1 2 3 by simp
  next
    case False
    have 1: "flush_key e True k s = (Inr (), s)" using fk False by simp
    have 2: "flush_keys e True ks s =
       (Inr (), s\<lparr>localStorage :=
                   Storage (filter (\<lambda>p. \<not> (fst p \<in> set ks \<and> envelope_text (snd p))) kvs)\<rparr>)"
      using Cons.prems by (intro Cons.IH) auto
    have no: "\<not> envelope_text (snd p)" if "p \<in> set kvs" "fst p = k" for p
    proof (cases "map_of kvs k")
      case None
      with that show ?thesis
        by (metis domIff dom_map_of_conv_image_fst imageI)
    next
      case (Some str)
      with False at_k [OF that Some] show ?thesis by simp
    qed
    have 3: "filter (\<lambda>p. \<not> (fst p \<in> set ks \<and> envelope_text (snd p))) kvs
           = filter (\<lambda>p. \<not> (fst p \<in> set (k # ks) \<and> envelope_text (snd p))) kvs"
      by (rule filter_cong) (use no in auto)
    show ?thesis using 1 2 3 by simp
  qed
qed

lemma unreadable_ttl_parse:
  "JSON_parse (u ''{'' @ quote [0] @ u '':1,\"ttl\":{\"toString\":1}}'')
     = Inr (JObj [([0], JNum (num 1)), (u ''ttl'', JObj [(u ''toString'', JNum (num 1))])])"
  by code_simp

lemma expired_envelope_text: "envelope_text (u ''{'' @ quote [0] @ u '':2,\"ttl\":5}'')"
  by code_simp

text \<open>
  C7, as stated, at a store that holds \<open>{"\u0000":1,"ttl":{"toString":1}}\<close> under \<open>a\<close> and
  the expired envelope \<open>{"\u0000":2,"ttl":5}\<close> under \<open>b\<close>: \<open>poll(true)\<close> at time 10 throws a
  \<open>TypeError\<close> at the first entry, where \<open>Date.now() > item.ttl\<close> is evaluated before \<open>force\<close>
  is looked at, and removes nothing, the envelope under \<open>b\<close> included.
\<close>

theorem poll_force_flush_counterexample:
  "poll (env_at 10) True
     (probed [(u ''a'', u ''{'' @ quote [0] @ u '':1,\"ttl\":{\"toString\":1}}''),
              (u ''b'', u ''{'' @ quote [0] @ u '':2,\"ttl\":5}'')])
   = (Inl TypeError,
      probed [(u ''a'', u ''{'' @ quote [0] @ u '':1,\"ttl\":{\"toString\":1}}''),
              (u ''b'', u ''{'' @ quote [0] @ u '':2,\"ttl\":5}'')])
   \<and> envelope_text (u ''{'' @ quote [0] @ u '':2,\"ttl\":5}'')"
proof -
  let ?item = "JObj [([0], JNum (num 1)), (u ''ttl'', JObj [(u ''toString'', JNum (num 1))])]"
  have m: "is_envelope ?item" by (simp add: is_envelope_iff)
  have n: "now_after 10 (prop_of ?item (u ''ttl'')) = Inl TypeError"
    by (simp add: now_after_def prop_of_def u_def has_own_def)
  have "poll (env_at 10) True
     (probed [(u ''a'', u ''{'' @ quote [0] @ u '':1,\"ttl\":{\"toString\":1}}''),
              (u ''b'', u ''{'' @ quote [0] @ u '':2,\"ttl\":5}'')])
   = (Inl TypeError,
      probed [(u ''a'', u ''{'' @ quote [0] @ u '':1,\"ttl\":{\"toString\":1}}''),
              (u ''b'', u ''{'' @ quote [0] @ u '':2,\"ttl\":5}'')])"
    by (simp add: poll_def flush_def supportsLS_def flush_store_def keys_of_def probed_def
        flush_key_def getItem_def unreadable_ttl_parse m n env_at_def)
  with expired_envelope_text show ?thesis by simp
qed

text \<open>
  C7, amended: in a module that has probed a usable store (one entry for each key), where
  the \<open>ttl\<close> field of every stored TTL envelope converts to a number without an
  exception, \<open>poll(true)\<close> returns
  \<open>undefined\<close>, empties the timer registry and leaves in the store, in their order and with
  their texts, exactly the entries that are no TTL envelope: the texts that do not parse
  and the texts that parse to anything but an object with the NUL key. Every entry that
  is a TTL envelope is removed, whatever its expiry.
\<close>

theorem poll_force_flush:
  assumes "hasLS s = Some True" and "localStorage s = Storage kvs"
    and "distinct (map fst kvs)"
    and "\<forall>p \<in> set kvs. envelope_text (snd p) \<longrightarrow> ttl_readable (snd p)"
  shows "poll e True s =
     (Inr JUndefined,
      s\<lparr>cbRefs := [], localStorage := Storage (filter (\<lambda>p. \<not> envelope_text (snd p)) kvs)\<rparr>)"
proof -
  let ?s = "s\<lparr>cbRefs := []\<rparr>"
  have "flush_keys e True (map fst kvs) ?s =
     (Inr (), ?s\<lparr>localStorage :=
        Storage (filter (\<lambda>p. \<not> (fst p \<in> set (map fst kvs) \<and> envelope_text (snd p))) kvs)\<rparr>)"
    using assms by (intro flush_keys_force) auto
  moreover have "filter (\<lambda>p. \<not> (fst p \<in> set (map fst kvs) \<and> envelope_text (snd p))) kvs
        = filter (\<lambda>p. \<not> envelope_text (snd p)) kvs"
    by (rule filter_cong) auto
  ultimately show ?thesis
    using assms(1,2)
    by (simp add: poll_def flush_def supportsLS_def flush_store_def keys_of_def)
qed

lemma sample_store_readable:
  "\<forall>p \<in> set [(u ''a'', u ''{'' @ quote [0] @ u '':1,\"ttl\":9000}''), (u ''b'', u ''\"plain\"''),
               (u ''c'', u ''hello''), (u ''d'', u ''{\"ttl\":5,\"a\":1}''),
               (u ''e'', u ''{'' @ quote [0] @ u '':2,\"ttl\":5}'')].
     envelope_text (snd p) \<longrightarrow> ttl_readable (snd p)"
  by code_simp

lemma sample_store_filtered:
  "filter (\<lambda>p. \<not> envelope_text (snd p))
     [(u ''a'', u ''{'' @ quote [0] @ u '':1,\"ttl\":9000}''), (u ''b'', u ''\"plain\"''),
      (u ''c'', u ''hello''), (u ''d'', u ''{\"ttl\":5,\"a\":1}''),
      (u ''e'', u ''{'' @ quote [0] @ u '':2,\"ttl\":5}'')]
   = [(u ''b'', u ''\"plain\"''), (u ''c'', u ''hello''), (u ''d'', u ''{\"ttl\":5,\"a\":1}'')]"
  by code_simp

text \<open>The forced flush evaluated on a sample store, from the definitions alone: the two
  envelopes go, the string, the text that does not parse and the object without the NUL
  key stay.\<close>

lemma sample_poll_run:
  "localStorage (snd (poll (env_at 10) True
     (probed [(u ''a'', u ''{'' @ quote [0] @ u '':1,\"ttl\":9000}''), (u ''b'', u ''\"plain\"''),
              (u ''c'', u ''hello''), (u ''d'', u ''{\"ttl\":5,\"a\":1}''),
              (u ''e'', u ''{'' @ quote [0] @ u '':2,\"ttl\":5}'')])))
   = Storage [(u ''b'', u ''\"plain\"''), (u ''c'', u ''hello''), (u ''d'', u ''{\"ttl\":5,\"a\":1}'')]"
  by code_simp

theorem poll_force_flush_witness:
  "poll (env_at 10) True
     (probed [(u ''a'', u ''{'' @ quote [0] @ u '':1,\"ttl\":9000}''), (u ''b'', u ''\"plain\"''),
              (u ''c'', u ''hello''), (u ''d'', u ''{\"ttl\":5,\"a\":1}''),
              (u ''e'', u ''{'' @ quote [0] @ u '':2,\"ttl\":5}'')])
   = (Inr JUndefined,
      probed [(u ''b'', u ''\"plain\"''), (u ''c'', u ''hello''), (u ''d'', u ''{\"ttl\":5,\"a\":1}'')])"
proof -
  let ?kvs = "[(u ''a'', u ''{'' @ quote [0] @ u '':1,\"ttl\":9000}''), (u ''b'', u ''\"plain\"''),
               (u ''c'', u ''hello''), (u ''d'', u ''{\"ttl\":5,\"a\":1}''),
               (u ''e'', u ''{'' @ quote [0] @ u '':2,\"ttl\":5}'')]"
  have h: "hasLS (probed ?kvs) = Some True" "localStorage (probed ?kvs) = Storage ?kvs"
    by (simp_all add: probed_def)
  have d: "distinct (map fst ?kvs)" by (simp add: u_def)
  from poll_force_flush [OF h d sample_store_readable, of "env_at 10"]
  show ?thesis unfolding sample_store_filtered by (simp add: probed_def)
qed

subsection \<open>The obfuscator on a character outside the Basic Multilingual Plane\<close>

lemma obfus_pair1:
  "obfus (JStr [0xD83D, 0xDE00]) (JNum (num 75)) True = Inr (JStr [0x6D, 0xD888, 0x6D])"
  by code_simp

lemma obfus_pair2:
  "JSON_stringify (JStr [0x6D, 0xD888, 0x6D])
     = Inr (Some [0x22, 0x6D, 0x5C, 0x75, 0x64, 0x38, 0x38, 0x38, 0x6D, 0x22])"
  by code_simp

lemma obfus_pair3:
  "JSON_parse [0x22, 0x6D, 0x5C, 0x75, 0x64, 0x38, 0x38, 0x38, 0x6D, 0x22]
     = Inr (JStr [0x6D, 0xD888, 0x6D])"
  by code_simp

lemma obfus_pair4:
  "obfus (JStr [0x6D, 0xD888, 0x6D]) (JNum (num 75)) False = Inr (JStr [0xD83D])"
  by code_simp

text \<open>
  C8, at the one-character string U+1F600, whose UTF-16 form is the surrogate pair
  \<open>D83D DE00\<close>, with the default secret 75: \<open>set\<close> with \<open>encrypt\<close> succeeds, and \<open>get\<close>
  with \<open>encrypt\<close> returns the string that holds the high surrogate alone. \<open>obfus\<close> spreads
  the text into code points and shifts \<open>charCodeAt(0)\<close> of each, so the low surrogate of
  the pair is never written.
\<close>

theorem obfus_loses_low_surrogate:
  "ls_set (env_at 0) (u ''k'') (JStr [0xD83D, 0xDE00]) (no_override \<lparr> l_encrypt := Some True \<rparr>) (probed [])
     = (Inr JUndefined, probed [(u ''k'', [0x22, 0x6D, 0x5C, 0x75, 0x64, 0x38, 0x38, 0x38, 0x6D, 0x22])])
   \<and> ls_get (env_at 0) (u ''k'') (no_override \<lparr> l_encrypt := Some True \<rparr>)
        (probed [(u ''k'', [0x22, 0x6D, 0x5C, 0x75, 0x64, 0x38, 0x38, 0x38, 0x6D, 0x22])])
     = (Inr (JStr [0xD83D]), probed [(u ''k'', [0x22, 0x6D, 0x5C, 0x75, 0x64, 0x38, 0x38, 0x38, 0x6D, 0x22])])"
  by (simp add: ls_set_def ls_get_def supportsLS_def probed_def set_try_def set_value_def
      effective_def config_init_def no_override_def crypt_or_NOOP_def setItem_def getItem_def
      decrypted_def decrypter_fn_def is_envelope_def obfus_pair1 obfus_pair2 obfus_pair3 obfus_pair4)

subsection \<open>The text codec: parsing what was serialised\<close>

lemma hex_value_hex_digit:
  assumes "0 \<le> n" "n < 16"
  shows "hex_value (hex_digit n) = Some n"
proof -
  have "\<forall>i \<in> set [0..15]. hex_value (hex_digit i) = Some i"
    by code_simp
  moreover from assms have "n \<in> set [0..15]"
    by simp
  ultimately show ?thesis
    by blast
qed

lemma hex_digits_of:
  fixes x :: int
  assumes "0 \<le> x" "x < 65536"
  shows "x div 4096 * 4096 + x div 256 mod 16 * 256 + x div 16 mod 16 * 16 + x mod 16 = x"
    and "0 \<le> x div 4096" and "x div 4096 < 16"
proof -
  have d1: "x div 256 = x div 16 div 16" and d2: "x div 4096 = x div 256 div 16"
    by (simp_all add: zdiv_zmult2_eq)
  have e1: "x = x div 16 * 16 + x mod 16"
    and e2: "x div 16 = x div 16 div 16 * 16 + x div 16 mod 16"
    and e3: "x div 256 = x div 256 div 16 * 16 + x div 256 mod 16"
    by simp_all
  show 1: "x div 4096 * 4096 + x div 256 mod 16 * 256 + x div 16 mod 16 * 16 + x mod 16 = x"
    using d1 d2 e1 e2 e3 by linarith
  show "0 \<le> x div 4096" using assms(1) by (simp add: pos_imp_zdiv_nonneg_iff)
  have "0 \<le> x div 256 mod 16" "0 \<le> x div 16 mod 16" "0 \<le> x mod 16" by simp_all
  with 1 assms(2) show "x div 4096 < 16" by linarith
qed

lemma hex4_unicode_escape:
  "hex4_value (hex_digit (uint c div 4096)) (hex_digit (uint c div 256 mod 16))
     (hex_digit (uint c div 16 mod 16)) (hex_digit (uint c mod 16)) = Some c"
proof -
  have b: "0 \<le> uint c" "uint c < 65536"
    using uint_lt2p [of c] by simp_all
  note d = hex_digits_of [OF b]
  have h: "hex_value (hex_digit (uint c div 4096)) = Some (uint c div 4096)"
    "hex_value (hex_digit (uint c div 256 mod 16)) = Some (uint c div 256 mod 16)"
    "hex_value (hex_digit (uint c div 16 mod 16)) = Some (uint c div 16 mod 16)"
    "hex_value (hex_digit (uint c mod 16)) = Some (uint c mod 16)"
    using d(2,3) by (simp_all add: hex_value_hex_digit)
  have "(word_of_int (uint c div 4096 * 4096 + uint c div 256 mod 16 * 256
           + uint c div 16 mod 16 * 16 + uint c mod 16) :: u16) = word_of_int (uint c)"
    by (simp only: d(1))
  then show ?thesis
    unfolding hex4_value_def h by (simp only: prod.case option.case word_of_int_uint)
qed

lemma surrogate_plain:
  "is_high c \<or> is_low c \<Longrightarrow> \<not> c < 0x20 \<and> c \<noteq> 0x22 \<and> c \<noteq> 0x5C"
  by (auto simp: is_high_def is_low_def word_le_def word_less_def)

lemma scan_plain:
  "\<not> c < 0x20 \<Longrightarrow> c \<noteq> 0x22 \<Longrightarrow> c \<noteq> 0x5C \<Longrightarrow> scan_string (c # cs) = cons_char c (scan_string cs)"
  by simp

lemma scan_unicode_escape:
  "scan_string (unicode_escape c @ cs) = cons_char c (scan_string cs)"
  by (simp add: unicode_escape_def hex4_unicode_escape)

lemma scan_single: "scan_string (quote_body [c] @ cs) = cons_char c (scan_string cs)"
  by (simp add: scan_unicode_escape unescape_def del: scan_string.simps)
     (auto simp: unescape_def)

lemma scan_quote_body: "scan_string (quote_body s @ 0x22 # rest) = Some (s, rest)"
proof (induction s rule: quote_body.induct)
  case 1
  show ?case by simp
next
  case (2 c)
  have "scan_string (quote_body [c] @ 0x22 # rest) = cons_char c (scan_string (0x22 # rest))"
    by (rule scan_single)
  then show ?case by (simp add: cons_char_def)
next
  case (3 c d cs)
  show ?case
  proof (cases "is_high c \<and> is_low d")
    case True
    from True surrogate_plain [of c] have pc: "\<not> c < 0x20" "c \<noteq> 0x22" "c \<noteq> 0x5C" by simp_all
    from True surrogate_plain [of d] have pd: "\<not> d < 0x20" "d \<noteq> 0x22" "d \<noteq> 0x5C" by simp_all
    have "scan_string (c # d # quote_body cs @ 0x22 # rest)
        = cons_char c (cons_char d (scan_string (quote_body cs @ 0x22 # rest)))"
      by (simp only: scan_plain [OF pc] scan_plain [OF pd])
    with True 3 show ?thesis
      by (simp add: cons_char_def del: scan_string.simps)
  next
    case False
    have q: "quote_body (c # d # cs) = quote_body [c] @ quote_body (d # cs)"
    proof -
      from False have "(is_high c \<and> is_low d) = False" by simp
      then show ?thesis by (simp only: quote_body.simps(3) if_False)
    qed
    have "scan_string (quote_body [c] @ quote_body (d # cs) @ 0x22 # rest)
        = cons_char c (scan_string (quote_body (d # cs) @ 0x22 # rest))"
      by (rule scan_single)
    also have "\<dots> = Some (c # d # cs, rest)"
      using "3.IH" False by (simp add: cons_char_def del: scan_string.simps quote_body.simps)
    finally have r: "scan_string (quote_body [c] @ quote_body (d # cs) @ 0x22 # rest)
        = Some (c # d # cs, rest)" .
    show ?thesis unfolding q append_assoc by (rule r)
  qed
qed

lemma digit_char:
  assumes "d < 10"
  shows "is_digit (0x30 + of_nat d)" and "uint ((0x30 :: u16) + of_nat d) - 0x30 = int d"
    and "(0x30 :: u16) + of_nat d = 0x30 \<longleftrightarrow> d = 0"
proof -
  have "\<forall>i \<in> set [0..9]. is_digit (0x30 + of_int i) \<and> uint ((0x30 :: u16) + of_int i) - 0x30 = i
      \<and> ((0x30 :: u16) + of_int i = 0x30 \<longleftrightarrow> i = 0)"
    by code_simp
  moreover from assms have "int d \<in> set [0..9]"
    by simp
  ultimately have "is_digit (0x30 + of_int (int d)) \<and> uint ((0x30 :: u16) + of_int (int d)) - 0x30 = int d
      \<and> ((0x30 :: u16) + of_int (int d) = 0x30 \<longleftrightarrow> int d = 0)"
    by blast
  then show "is_digit (0x30 + of_nat d)" and "uint ((0x30 :: u16) + of_nat d) - 0x30 = int d"
    and "(0x30 :: u16) + of_nat d = 0x30 \<longleftrightarrow> d = 0"
    by simp_all
qed

lemma digits_value_snoc: "digits_value (xs @ [c]) = 10 * digits_value xs + (uint c - 0x30)"
  by (simp add: digits_value_def)

lemma digits_value_append:
  "digits_value (xs @ ys) = digits_value xs * 10 ^ length ys + digits_value ys"
proof (induction ys rule: rev_induct)
  case Nil
  show ?case by (simp add: digits_value_def)
next
  case (snoc y ys)
  have "digits_value (xs @ ys @ [y]) = 10 * digits_value (xs @ ys) + (uint y - 0x30)"
    using digits_value_snoc [of "xs @ ys" y] by simp
  then show ?case by (simp add: snoc digits_value_snoc algebra_simps)
qed

lemma digits_value_zeros: "digits_value (replicate j 0x30) = 0"
proof (induction j)
  case 0
  show ?case by (simp add: digits_value_def)
next
  case (Suc j)
  have "replicate (Suc j) (0x30 :: u16) = replicate j 0x30 @ [0x30]"
    by (simp add: replicate_append_same)
  then show ?case using Suc by (simp only: digits_value_snoc) simp
qed

declare digits.simps [simp del]

lemma digits_small: "n < 10 \<Longrightarrow> digits n = [0x30 + of_nat n]"
  by (simp add: digits.simps [of n])

lemma digits_large:
  "\<not> n < 10 \<Longrightarrow> \<exists>c. digits n = digits (n div 10) @ [c] \<and> is_digit c
       \<and> uint c - 0x30 = int (n mod 10) \<and> (c = 0x30 \<longleftrightarrow> n mod 10 = 0)"
  using digit_char [of "n mod 10"] by (simp add: digits.simps [of n])

lemma digits_is_digit: "\<forall>c \<in> set (digits n). is_digit c"
proof (induction n rule: digits.induct)
  case (1 n)
  show ?case
  proof (cases "n < 10")
    case True
    then show ?thesis using digit_char(1) [of n] by (simp add: digits_small)
  next
    case False
    from digits_large [OF False] obtain c where "digits n = digits (n div 10) @ [c]" "is_digit c"
      by blast
    with False 1 show ?thesis by simp
  qed
qed

lemma digits_value_digits: "digits_value (digits n) = int n"
proof (induction n rule: digits.induct)
  case (1 n)
  show ?case
  proof (cases "n < 10")
    case True
    then show ?thesis
      using digit_char(2) [of n] by (simp add: digits_small digits_value_def)
  next
    case False
    from digits_large [OF False] obtain c where c: "digits n = digits (n div 10) @ [c]"
      "uint c - 0x30 = int (n mod 10)"
      by blast
    have "digits_value (digits n) = 10 * int (n div 10) + int (n mod 10)"
      using 1 [OF False] c by (simp only: digits_value_snoc)
    also have "\<dots> = int n" by presburger
    finally show ?thesis .
  qed
qed

lemma digits_nonempty: "digits n \<noteq> []"
  using digits_large [of n] digits_small [of n] by (cases "n < 10") auto

lemma hd_digits: "0 < n \<Longrightarrow> hd (digits n) \<noteq> 0x30"
proof (induction n rule: digits.induct)
  case (1 n)
  show ?case
  proof (cases "n < 10")
    case True
    with "1.prems" show ?thesis using digit_char(3) [of n] by (simp add: digits_small)
  next
    case False
    then have "0 < n div 10" by simp
    from digits_large [OF False] obtain c where "digits n = digits (n div 10) @ [c]" by blast
    with False 1 \<open>0 < n div 10\<close> show ?thesis by (simp add: digits_nonempty)
  qed
qed

lemma last_digits_zero: "last (digits n) = 0x30 \<longleftrightarrow> n mod 10 = 0"
proof (cases "n < 10")
  case True
  then show ?thesis using digit_char(3) [of n] by (simp add: digits_small)
next
  case False
  from digits_large [OF False] show ?thesis by auto
qed

lemma takeWhile_digits:
  assumes "\<forall>c \<in> set ds. is_digit c" and "stops rest"
  shows "takeWhile is_digit (ds @ rest) = ds" and "dropWhile is_digit (ds @ rest) = rest"
proof -
  from assms(2) have "takeWhile is_digit rest = []" "dropWhile is_digit rest = rest"
    by (cases rest; simp add: stops_def)+
  with assms(1) show "takeWhile is_digit (ds @ rest) = ds" "dropWhile is_digit (ds @ rest) = rest"
    by (simp_all add: takeWhile_append2 dropWhile_append2)
qed

lemma delimited_stops: "delimited rest \<Longrightarrow> stops rest"
  by (auto simp: delimited_def stops_def is_digit_def)

lemma digit_not_special:
  "is_digit c \<Longrightarrow> c \<noteq> 0x2D \<and> c \<noteq> 0x2E \<and> c \<noteq> 0x65 \<and> c \<noteq> 0x45 \<and> c \<noteq> 0x2B"
  by (auto simp: is_digit_def)

lemma scan_exponent_of:
  assumes "exponent_of ex ev" and "delimited rest"
  shows "scan_exponent (ex @ rest) = Some (ev, rest)"
proof (cases "ex = []")
  case True
  with assms have "ev = 0" by (auto simp: exponent_of_def)
  with True assms(2) show ?thesis
    by (cases rest) (auto simp: scan_exponent_def delimited_def)
next
  case False
  with assms(1) obtain es where es: "es \<noteq> []" "\<forall>c \<in> set es. is_digit c"
    and c: "ex = 0x65 # 0x2B # es \<and> ev = digits_value es
          \<or> ex = 0x65 # 0x2D # es \<and> ev = - digits_value es"
    by (auto simp: exponent_of_def)
  note t = takeWhile_digits [OF es(2) delimited_stops [OF assms(2)]]
  from c show ?thesis
    using t es(1) by (auto simp: scan_exponent_def Let_def)
qed

lemma exponent_stops: "exponent_of ex ev \<Longrightarrow> delimited rest \<Longrightarrow> stops (ex @ rest)"
  using delimited_stops [of rest] by (auto simp: exponent_of_def stops_def is_digit_def)

lemma exponent_no_point:
  "exponent_of ex ev \<Longrightarrow> delimited rest \<Longrightarrow> \<not> (ex @ rest \<noteq> [] \<and> hd (ex @ rest) = 0x2E)"
  by (auto simp: exponent_of_def delimited_def)

lemma scan_number_core:
  assumes ds: "ds \<noteq> []" "\<forall>c \<in> set ds. is_digit c" "length ds = 1 \<or> hd ds \<noteq> 0x30"
    and fs: "\<forall>c \<in> set fs. is_digit c"
    and ex: "exponent_of ex ev"
    and rest: "delimited rest"
    and X: "X = (if fs = [] then ex @ rest else 0x2E # fs @ ex @ rest)"
    and sign: "(cs \<noteq> [] \<and> hd cs = 0x2D) = neg" "(if neg then tl cs else cs) = ds @ X"
  shows "scan_number cs = Some (decimal neg (ds @ fs) (length fs) ev, rest)"
proof -
  have sx: "stops X"
    using exponent_stops [OF ex rest] by (simp add: X stops_def is_digit_def)
  have a: "takeWhile is_digit (ds @ X) = ds" "dropWhile is_digit (ds @ X) = X"
    using takeWhile_digits [OF ds(2) sx] by simp_all
  have b: "(X \<noteq> [] \<and> hd X = 0x2E) = (fs \<noteq> [])"
    using exponent_no_point [OF ex rest] by (simp add: X)
  have c: "takeWhile is_digit (tl X) = fs" "dropWhile is_digit (tl X) = ex @ rest" if "fs \<noteq> []"
    using takeWhile_digits [OF fs exponent_stops [OF ex rest]] that by (simp_all add: X)
  have d: "X = ex @ rest" if "fs = []" using that by (simp add: X)
  have lead: "(1 < length ds \<and> hd ds = 0x30) = False" using ds(3) by auto
  note se = scan_exponent_of [OF ex rest]
  show ?thesis
  proof (cases "fs = []")
    case True
    show ?thesis
      unfolding scan_number_def Let_def sign a b lead
      using ds(1) se True d by simp
  next
    case False
    show ?thesis
      unfolding scan_number_def Let_def sign a b lead
      using ds(1) se False c by simp
  qed
qed

lemma scan_number_parts:
  assumes ds: "ds \<noteq> []" "\<forall>c \<in> set ds. is_digit c" "length ds = 1 \<or> hd ds \<noteq> 0x30"
    and fs: "\<forall>c \<in> set fs. is_digit c"
    and ex: "exponent_of ex ev"
    and rest: "delimited rest"
  shows "scan_number ((if neg then [0x2D] else []) @ render ds fs ex @ rest)
       = Some (decimal neg (ds @ fs) (length fs) ev, rest)"
proof (rule scan_number_core [OF assms refl])
  from ds have hd_ds: "is_digit (hd ds)" by (cases ds) auto
  show "(((if neg then [0x2D] else []) @ render ds fs ex @ rest) \<noteq> []
        \<and> hd ((if neg then [0x2D] else []) @ render ds fs ex @ rest) = 0x2D) = neg"
    using ds(1) hd_ds digit_not_special [of "hd ds"] by (simp add: render_def)
  show "(if neg then tl ((if neg then [0x2D] else []) @ render ds fs ex @ rest)
         else (if neg then [0x2D] else []) @ render ds fs ex @ rest)
      = ds @ (if fs = [] then ex @ rest else 0x2E # fs @ ex @ rest)"
    by (simp add: render_def)
qed

lemma fin_normal: "k = 0 \<or> m mod 10 \<noteq> 0 \<Longrightarrow> fin m k = Fin m k"
  by (cases k) (auto simp: fin_def)

lemma takeWhile_zeros: "takeWhile (\<lambda>c. c = x) xs = replicate (length (takeWhile (\<lambda>c. c = x) xs)) x"
  by (induction xs) auto

lemma strip_zeros_split:
  "\<exists>z. ds = strip_zeros ds @ replicate z 0x30"
proof -
  have "rev ds = takeWhile (\<lambda>c. c = 0x30) (rev ds) @ dropWhile (\<lambda>c. c = 0x30) (rev ds)"
    by simp
  then have "ds = rev (dropWhile (\<lambda>c. c = 0x30) (rev ds)) @ rev (takeWhile (\<lambda>c. c = 0x30) (rev ds))"
    by (metis rev_append rev_rev_ident)
  moreover have "rev (takeWhile (\<lambda>c. c = 0x30) (rev ds))
      = replicate (length (takeWhile (\<lambda>c. c = 0x30) (rev ds))) (0x30 :: u16)"
    using takeWhile_zeros [of "0x30 :: u16" "rev ds"] by (metis rev_replicate)
  ultimately show ?thesis unfolding strip_zeros_def by metis
qed

lemma strip_zeros_keep: "ds \<noteq> [] \<Longrightarrow> last ds \<noteq> 0x30 \<Longrightarrow> strip_zeros ds = ds"
  by (cases ds rule: rev_cases) (simp_all add: strip_zeros_def)

lemma strip_zeros_subset: "set (strip_zeros ds) \<subseteq> set ds"
  unfolding strip_zeros_def using set_dropWhileD by fastforce

lemma positive_to_string_parts:
  assumes a: "0 < a" and normal: "k = 0 \<or> a mod 10 \<noteq> 0"
  shows "\<exists>ds fs ex ev. positive_to_string a k = render ds fs ex \<and> ds \<noteq> []
      \<and> (\<forall>c \<in> set ds. is_digit c) \<and> (length ds = 1 \<or> hd ds \<noteq> 0x30)
      \<and> (\<forall>c \<in> set fs. is_digit c) \<and> exponent_of ex ev
      \<and> (\<forall>neg. decimal neg (ds @ fs) (length fs) ev = Fin (if neg then - int a else int a) k)"
proof -
  define D where "D = digits a"
  define s where "s = strip_zeros D"
  define n where "n = int (length D) - int k"
  have D: "D \<noteq> []" "\<forall>c \<in> set D. is_digit c" "hd D \<noteq> 0x30" "digits_value D = int a"
    using a by (simp_all add: D_def digits_nonempty digits_is_digit hd_digits digits_value_digits)
  obtain z where z: "D = s @ replicate z 0x30"
    using strip_zeros_split [of D] s_def by blast
  have s: "s \<noteq> []" "hd s = hd D" "\<forall>c \<in> set s. is_digit c"
  proof -
    show "s \<noteq> []"
    proof
      assume "s = []"
      with z D(1,3) show False by (cases z) auto
    qed
    then show "hd s = hd D" using z by (metis hd_append2)
    show "\<forall>c \<in> set s. is_digit c" using D(2) strip_zeros_subset [of D] s_def by blast
  qed
  have len: "length D = length s + z" using z by (metis length_append length_replicate)
  have val: "digits_value s * 10 ^ z = int a"
    using D(4) z digits_value_append [of s "replicate z 0x30"] digits_value_zeros [of z]
    by simp
  have pos: "s = D" "z = 0" if "0 < k"
  proof -
    from that normal have "a mod 10 \<noteq> 0" by simp
    then have "last D \<noteq> 0x30" by (simp add: D_def last_digits_zero)
    with D(1) show "s = D" by (simp add: s_def strip_zeros_keep)
    with len show "z = 0" by simp
  qed
  have nrm: "fin (int a) k = Fin (int a) k" "fin (- int a) k = Fin (- int a) k"
  proof -
    have "int a mod 10 \<noteq> 0" "(- int a) mod 10 \<noteq> 0" if "a mod 10 \<noteq> 0"
      using that by presburger+
    with normal show "fin (int a) k = Fin (int a) k" "fin (- int a) k = Fin (- int a) k"
      by (auto intro!: fin_normal)
  qed
  have pts: "positive_to_string a k =
     (if int (length s) \<le> n \<and> n \<le> 21 then s @ replicate (nat n - length s) 0x30
      else if 0 < n \<and> n \<le> 21 then take (nat n) s @ [0x2E] @ drop (nat n) s
      else if - 6 < n \<and> n \<le> 0 then [0x30, 0x2E] @ replicate (nat (- n)) 0x30 @ s
      else (if length s = 1 then s else take 1 s @ [0x2E] @ drop 1 s)
           @ [0x65] @ (if 0 \<le> n - 1 then [0x2B] else [0x2D]) @ digits (nat \<bar>n - 1\<bar>))"
    by (simp add: positive_to_string_def Let_def D_def s_def n_def)
  consider (int) "int (length s) \<le> n" "n \<le> 21"
    | (frac) "\<not> int (length s) \<le> n" "0 < n" "n \<le> 21"
    | (small) "- 6 < n" "n \<le> 0"
    | (exp) "n > 21 \<or> n \<le> - 6"
    by linarith
  then show ?thesis
  proof cases
    case int
    have k0: "k = 0"
    proof (rule ccontr)
      assume "k \<noteq> 0"
      then have "0 < k" by simp
      with pos int(1) show False by (simp add: n_def)
    qed
    have "nat n - length s = z" using k0 len by (simp add: n_def)
    then have "positive_to_string a k = D"
      unfolding pts using int z by simp
    moreover have "decimal neg (D @ []) (length ([] :: jstring)) 0
        = Fin (if neg then - int a else int a) k" for neg
      using D(4) nrm k0 by (simp add: decimal_def)
    moreover have "exponent_of [] 0" by (simp add: exponent_of_def)
    ultimately show ?thesis
      using D by (intro exI [of _ D] exI [of _ "[]"] exI [of _ 0]) (simp add: render_def)
  next
    case frac
    have k: "0 < k"
    proof (rule ccontr)
      assume "\<not> 0 < k"
      with frac(1) len show False by (simp add: n_def)
    qed
    note sd = pos [OF k]
    have nn: "0 < nat n" "nat n < length D" "length D - nat n = k"
      using frac k by (simp_all add: n_def)
    let ?ds = "take (nat n) D" and ?fs = "drop (nat n) D"
    have "positive_to_string a k = render ?ds ?fs []"
      using frac nn sd by (simp add: pts render_def)
    moreover have "?ds \<noteq> []" using nn D(1) by simp
    moreover have "\<forall>c \<in> set ?ds. is_digit c" "\<forall>c \<in> set ?fs. is_digit c"
      using D(2) by (auto dest: in_set_takeD in_set_dropD)
    moreover have "hd ?ds \<noteq> 0x30" using nn D(1,3) by (simp add: hd_take)
    moreover have "decimal neg (?ds @ ?fs) (length ?fs) 0
        = Fin (if neg then - int a else int a) k" for neg
      using D(4) nrm nn k by (simp add: decimal_def)
    moreover have "exponent_of [] 0" by (simp add: exponent_of_def)
    ultimately show ?thesis
      by (intro exI [of _ ?ds] exI [of _ ?fs] exI [of _ "[]"] exI [of _ 0]) simp
  next
    case small
    have k: "0 < k" using small D(1) by (cases k) (auto simp: n_def)
    note sd = pos [OF k]
    let ?fs = "replicate (nat (- n)) 0x30 @ D"
    have lf: "length ?fs = k" using small by (simp add: n_def)
    have "0 < int (length D)" using D(1) by simp
    with small have "\<not> int (length D) \<le> n" "\<not> 0 < n" by linarith+
    then have "positive_to_string a k = render [0x30] ?fs []"
      using small sd D(1) by (simp add: pts render_def)
    moreover have "\<forall>c \<in> set ?fs. is_digit c" using D(2) by (auto simp: is_digit_def)
    moreover have "digits_value ([0x30] @ ?fs) = int a"
    proof -
      have "digits_value ([0x30] @ ?fs) = digits_value ?fs"
        using digits_value_append [of "[0x30]" ?fs] by (simp add: digits_value_def)
      also have "\<dots> = int a"
        using digits_value_append [of "replicate (nat (- n)) 0x30" D] digits_value_zeros D(4)
        by simp
      finally show ?thesis .
    qed
    then have "decimal neg ([0x30] @ ?fs) (length ?fs) 0
        = Fin (if neg then - int a else int a) k" for neg
      using nrm k lf by (simp add: decimal_def del: replicate_Suc)
    moreover have "exponent_of [] 0" by (simp add: exponent_of_def)
    ultimately show ?thesis
      by (intro exI [of _ "[0x30]"] exI [of _ ?fs] exI [of _ "[]"] exI [of _ 0])
         (simp add: is_digit_def)
  next
    case exp
    define e where "e = n - 1"
    let ?es = "digits (nat \<bar>e\<bar>)"
    let ?ex = "0x65 # (if 0 \<le> e then 0x2B else 0x2D) # ?es"
    let ?ds = "take 1 s" and ?fs = "drop 1 s"
    have ev: "exponent_of ?ex e"
      using digits_nonempty [of "nat \<bar>e\<bar>"] digits_is_digit [of "nat \<bar>e\<bar>"]
        digits_value_digits [of "nat \<bar>e\<bar>"]
      by (auto simp: exponent_of_def)
    have not_int: "\<not> (int (length s) \<le> n \<and> n \<le> 21)"
    proof
      assume h: "int (length s) \<le> n \<and> n \<le> 21"
      with exp have "n \<le> - 6" by simp
      with h s(1) show False by (cases s) auto
    qed
    have c2: "(0 < n \<and> n \<le> 21) = False" "(- 6 < n \<and> n \<le> 0) = False"
      using exp by arith+
    have c1: "(int (length s) \<le> n \<and> n \<le> 21) = False" using not_int by simp
    have "positive_to_string a k = render ?ds ?fs ?ex"
    proof (cases "length s = 1")
      case True
      then show ?thesis unfolding pts c1 c2 by (simp add: render_def e_def)
    next
      case False
      with s(1) have "drop 1 s \<noteq> []" by (cases s) auto
      with False show ?thesis unfolding pts c1 c2 by (simp add: render_def e_def)
    qed
    moreover have "?ds \<noteq> []" "length ?ds = 1" using s(1) by (cases s; simp)+
    moreover have "\<forall>c \<in> set ?ds. is_digit c" "\<forall>c \<in> set ?fs. is_digit c"
      using s(3) by (auto dest: in_set_takeD in_set_dropD)
    moreover have "decimal neg (?ds @ ?fs) (length ?fs) e
        = Fin (if neg then - int a else int a) k" for neg
    proof (cases "0 < k")
      case True
      note sd = pos [OF True]
      have "\<not> int (length s - 1) \<le> e" "nat (int (length s - 1) - e) = k"
        using True sd D(1) by (cases D; simp add: e_def n_def)+
      then show ?thesis
        using nrm D(4) sd by (simp add: decimal_def)
    next
      case False
      then have k0: "k = 0" by simp
      have "int (length s - 1) \<le> e" "nat (e - int (length s - 1)) = z"
        using k0 len s(1) by (cases s; simp add: e_def n_def)+
      then show ?thesis
        using nrm val k0 by (simp add: decimal_def)
    qed
    ultimately show ?thesis using ev
      by (intro exI [of _ ?ds] exI [of _ ?fs] exI [of _ ?ex] exI [of _ e]) simp
  qed
qed

lemma scan_num_to_string:
  assumes normal: "k = 0 \<or> m mod 10 \<noteq> 0" and rest: "delimited rest"
  shows "\<exists>c cs. num_to_string (Fin m k) @ rest = c # cs \<and> (c = 0x2D \<or> is_digit c)
          \<and> scan_number (c # cs) = Some (Fin m k, rest)"
proof -
  have start: "\<exists>c cs. (if neg then [0x2D] else []) @ render ds fs ex @ rest = c # cs
      \<and> (c = 0x2D \<or> is_digit c)" if "ds \<noteq> []" "\<forall>c \<in> set ds. is_digit c" for neg ds fs ex
    using that by (cases ds) (auto simp: render_def)
  consider "m = 0" | "0 < m" | "m < 0" by linarith
  then show ?thesis
  proof cases
    case 1
    with normal have k: "k = 0" by simp
    have e: "exponent_of [] 0" by (simp add: exponent_of_def)
    have "scan_number ((if False then [0x2D] else []) @ render [0x30] [] [] @ rest)
        = Some (decimal False ([0x30] @ []) (length ([] :: jstring)) 0, rest)"
      by (rule scan_number_parts [OF _ _ _ _ e rest]) (simp_all add: is_digit_def)
    then show ?thesis
      using 1 k by (simp add: render_def decimal_def digits_value_def fin_def is_digit_def)
  next
    case 2
    define a where "a = nat m"
    have "int (a mod 10) = m mod 10" using 2 by (simp add: a_def zmod_int)
    then have "a mod 10 \<noteq> 0" if "m mod 10 \<noteq> 0"
      using that by (cases "a mod 10") auto
    then have a: "0 < a" "int a = m" "k = 0 \<or> a mod 10 \<noteq> 0"
      using 2 normal by (auto simp: a_def)
    from positive_to_string_parts [OF a(1,3)] obtain ds fs ex ev where
      p: "positive_to_string a k = render ds fs ex" "ds \<noteq> []" "\<forall>c \<in> set ds. is_digit c"
        "length ds = 1 \<or> hd ds \<noteq> 0x30" "\<forall>c \<in> set fs. is_digit c" "exponent_of ex ev"
        "\<forall>neg. decimal neg (ds @ fs) (length fs) ev = Fin (if neg then - int a else int a) k"
      by blast
    have t: "num_to_string (Fin m k) @ rest = (if False then [0x2D] else []) @ render ds fs ex @ rest"
      using 2 p(1) by (simp add: a_def)
    from scan_number_parts [OF p(2-6) rest, of False] p(7) a(2)
    have "scan_number (num_to_string (Fin m k) @ rest) = Some (Fin m k, rest)"
      unfolding t by simp
    with start [OF p(2,3), of False fs ex] show ?thesis unfolding t by auto
  next
    case 3
    define a where "a = nat (- m)"
    have "(- m) mod 10 \<noteq> 0" if "m mod 10 \<noteq> 0"
      using that by presburger
    moreover have "int (a mod 10) = (- m) mod 10" using 3 by (simp add: a_def zmod_int)
    ultimately have "a mod 10 \<noteq> 0" if "m mod 10 \<noteq> 0"
      using that by (cases "a mod 10") auto
    then have a: "0 < a" "- int a = m" "k = 0 \<or> a mod 10 \<noteq> 0"
      using 3 normal by (auto simp: a_def)
    from positive_to_string_parts [OF a(1,3)] obtain ds fs ex ev where
      p: "positive_to_string a k = render ds fs ex" "ds \<noteq> []" "\<forall>c \<in> set ds. is_digit c"
        "length ds = 1 \<or> hd ds \<noteq> 0x30" "\<forall>c \<in> set fs. is_digit c" "exponent_of ex ev"
        "\<forall>neg. decimal neg (ds @ fs) (length fs) ev = Fin (if neg then - int a else int a) k"
      by blast
    have t: "num_to_string (Fin m k) @ rest = (if True then [0x2D] else []) @ render ds fs ex @ rest"
      using 3 p(1) by (simp add: a_def)
    from scan_number_parts [OF p(2-6) rest, of True] p(7) a(2)
    have "scan_number (num_to_string (Fin m k) @ rest) = Some (Fin m k, rest)"
      unfolding t by simp
    with start [OF p(2,3), of True fs ex] show ?thesis unfolding t by auto
  qed
qed

lemma step_scalar:
  assumes "supply_value w f = Some f'"
  shows "step TNull (f # st) = supply_stack JNull (f # st)"
    and "step TTrue (f # st) = supply_stack (JBool True) (f # st)"
    and "step TFalse (f # st) = supply_stack (JBool False) (f # st)"
    and "step (TNumber n) (f # st) = supply_stack (JNum n) (f # st)"
    and "step (TString s) (f # st) = supply_stack (JStr s) (f # st)"
    and "step TLBracket (f # st) = Some (ArrOpen # f # st)"
    and "step TLBrace (f # st) = Some (ObjOpen # f # st)"
  using assms by (cases f; simp)+

lemma tokens_literal:
  "tokens (u ''null'' @ rest) = map_option ((#) TNull) (tokens rest)"
  "tokens (u ''true'' @ rest) = map_option ((#) TTrue) (tokens rest)"
  "tokens (u ''false'' @ rest) = map_option ((#) TFalse) (tokens rest)"
  by (simp_all add: u_def scan_token_def is_ws_def is_digit_def)

lemma tokens_punct:
  "tokens (0x5B # rest) = map_option ((#) TLBracket) (tokens rest)"
  "tokens (0x5D # rest) = map_option ((#) TRBracket) (tokens rest)"
  "tokens (0x7B # rest) = map_option ((#) TLBrace) (tokens rest)"
  "tokens (0x7D # rest) = map_option ((#) TRBrace) (tokens rest)"
  "tokens (0x2C # rest) = map_option ((#) TComma) (tokens rest)"
  "tokens (0x3A # rest) = map_option ((#) TColon) (tokens rest)"
  by (simp_all add: scan_token_def is_ws_def)

lemma tokens_quote: "tokens (quote s @ rest) = map_option ((#) (TString s)) (tokens rest)"
  by (simp add: quote_def scan_token_def is_ws_def scan_quote_body)

lemma tokens_number:
  "c = 0x2D \<or> is_digit c \<Longrightarrow> scan_number (c # cs) = Some (n, rest) \<Longrightarrow>
     tokens (c # cs) = map_option ((#) (TNumber n)) (tokens rest)"
  by (auto simp: scan_token_def is_ws_def is_digit_def)

declare tokens.simps(2) [simp del]

lemma reads_literal:
  "reads (u ''null'') JNull" "reads (u ''true'') (JBool True)" "reads (u ''false'') (JBool False)"
  unfolding reads_def
  by (rule exI [of _ "[TNull]"], simp add: reads_as_def tokens_literal step_scalar)
     (rule exI [of _ "[TTrue]"], simp add: reads_as_def tokens_literal step_scalar,
      rule exI [of _ "[TFalse]"], simp add: reads_as_def tokens_literal step_scalar)

lemma reads_string: "reads (quote s) (JStr s)"
  unfolding reads_def
  by (rule exI [of _ "[TString s]"]) (simp add: reads_as_def tokens_quote step_scalar)

lemma reads_number: "k = 0 \<or> m mod 10 \<noteq> 0 \<Longrightarrow> reads (num_to_string (Fin m k)) (JNum (Fin m k))"
  unfolding reads_def
proof (rule exI [of _ "[TNumber (Fin m k)]"], unfold reads_as_def, intro conjI allI impI)
  fix rest r
  assume n: "k = 0 \<or> m mod 10 \<noteq> 0" and d: "delimited rest" and r: "tokens rest = Some r"
  from scan_num_to_string [OF n d] obtain c cs where
    "num_to_string (Fin m k) @ rest = c # cs" "c = 0x2D \<or> is_digit c"
    "scan_number (c # cs) = Some (Fin m k, rest)"
    by blast
  with tokens_number [of c cs "Fin m k" rest] r
  show "tokens (num_to_string (Fin m k) @ rest) = Some ([TNumber (Fin m k)] @ r)" by simp
next
  fix ts f f' st
  assume "supply_value (JNum (Fin m k)) f = Some f'"
  then show "run ([TNumber (Fin m k)] @ ts) (f # st) = run ts (f' # st)"
    by (simp add: step_scalar)
qed

lemma reads_asD1:
  "reads_as tk t w \<Longrightarrow> delimited rest \<Longrightarrow> tokens rest = Some r \<Longrightarrow> tokens (t @ rest) = Some (tk @ r)"
  by (simp add: reads_as_def)

lemma reads_asD2:
  "reads_as tk t w \<Longrightarrow> supply_value w f = Some f' \<Longrightarrow> run (tk @ ts) (f # st) = run ts (f' # st)"
  by (simp add: reads_as_def)

lemma join_Cons: "ts \<noteq> [] \<Longrightarrow> join sep (t # ts) = t @ sep @ join sep ts"
  by (cases ts) simp_all

lemma reads_elements:
  assumes "list_all2 reads ts ws" and "ts \<noteq> []"
  shows "\<exists>tk. (\<forall>rest r. tokens rest = Some r \<longrightarrow>
                tokens (join [0x2C] ts @ 0x5D # rest) = Some (tk @ TRBracket # r))
      \<and> (\<forall>more acc st. run (tk @ more) (ArrComma acc # st) = run more (ArrVal (acc @ ws) # st))
      \<and> (\<forall>more st. run (tk @ more) (ArrOpen # st) = run more (ArrVal ws # st))"
  using assms
proof (induction rule: list_all2_induct)
  case Nil
  then show ?case by simp
next
  case (Cons t ts w ws)
  from Cons.hyps(1) obtain tk where tk: "reads_as tk t w" by (auto simp: reads_def)
  have sv: "supply_value w (ArrComma acc) = Some (ArrVal (acc @ [w]))"
    "supply_value w ArrOpen = Some (ArrVal [w])" for acc
    by simp_all
  show ?case
  proof (cases "ts = []")
    case True
    with Cons.hyps(2) have ws: "ws = []" by simp
    show ?thesis
    proof (intro exI [of _ tk] conjI allI impI)
      fix rest r
      assume r: "tokens rest = Some r"
      have d: "delimited (0x5D # rest)" by (simp add: delimited_def)
      have "tokens (0x5D # rest) = Some (TRBracket # r)" using r by (simp add: tokens_punct)
      from reads_asD1 [OF tk d this]
      show "tokens (join [0x2C] (t # ts) @ 0x5D # rest) = Some (tk @ TRBracket # r)"
        using True by simp
    next
      fix more acc st
      show "run (tk @ more) (ArrComma acc # st) = run more (ArrVal (acc @ w # ws) # st)"
        using reads_asD2 [OF tk sv(1)] ws by simp
    next
      fix more st
      show "run (tk @ more) (ArrOpen # st) = run more (ArrVal (w # ws) # st)"
        using reads_asD2 [OF tk sv(2)] ws by simp
    qed
  next
    case False
    from Cons.IH [OF False] obtain tk' where
      l: "\<And>rest r. tokens rest = Some r \<Longrightarrow>
            tokens (join [0x2C] ts @ 0x5D # rest) = Some (tk' @ TRBracket # r)"
      and p: "\<And>more acc st. run (tk' @ more) (ArrComma acc # st) = run more (ArrVal (acc @ ws) # st)"
      by blast
    have j: "join [0x2C] (t # ts) = t @ 0x2C # join [0x2C] ts"
      using join_Cons [OF False, of "[0x2C]" t] by simp
    show ?thesis
    proof (intro exI [of _ "tk @ TComma # tk'"] conjI allI impI)
      fix rest r
      assume r: "tokens rest = Some r"
      have d: "delimited (0x2C # join [0x2C] ts @ 0x5D # rest)" by (simp add: delimited_def)
      have "tokens (0x2C # join [0x2C] ts @ 0x5D # rest) = Some (TComma # tk' @ TRBracket # r)"
        using l [OF r] by (simp add: tokens_punct)
      from reads_asD1 [OF tk d this]
      show "tokens (join [0x2C] (t # ts) @ 0x5D # rest) = Some ((tk @ TComma # tk') @ TRBracket # r)"
        by (simp add: j)
    next
      fix more acc st
      have "run ((tk @ TComma # tk') @ more) (ArrComma acc # st)
          = run (TComma # tk' @ more) (ArrVal (acc @ [w]) # st)"
        using reads_asD2 [OF tk sv(1), of "TComma # tk' @ more" acc st] by simp
      also have "\<dots> = run more (ArrVal ((acc @ [w]) @ ws) # st)"
        using p [of more "acc @ [w]" st] by simp
      finally show "run ((tk @ TComma # tk') @ more) (ArrComma acc # st)
          = run more (ArrVal (acc @ w # ws) # st)" by simp
    next
      fix more st
      have "run ((tk @ TComma # tk') @ more) (ArrOpen # st)
          = run (TComma # tk' @ more) (ArrVal [w] # st)"
        using reads_asD2 [OF tk sv(2), of "TComma # tk' @ more" st] by simp
      also have "\<dots> = run more (ArrVal ([w] @ ws) # st)"
        using p [of more "[w]" st] by simp
      finally show "run ((tk @ TComma # tk') @ more) (ArrOpen # st)
          = run more (ArrVal (w # ws) # st)" by simp
    qed
  qed
qed

lemma reads_array:
  assumes "list_all2 reads ts ws"
  shows "reads ([0x5B] @ join [0x2C] ts @ [0x5D]) (JArr ws)"
proof (cases "ts = []")
  case True
  with assms have ws: "ws = []" by simp
  show ?thesis
    unfolding reads_def
  proof (rule exI [of _ "[TLBracket, TRBracket]"], unfold reads_as_def, intro conjI allI impI)
    fix rest r
    assume "tokens rest = Some r"
    then show "tokens (([0x5B] @ join [0x2C] ts @ [0x5D]) @ rest) = Some ([TLBracket, TRBracket] @ r)"
      by (simp add: True tokens_punct)
  next
    fix more f f' st
    assume s: "supply_value (JArr ws) f = Some f'"
    then have "wants_value f" by (cases f) auto
    with s show "run ([TLBracket, TRBracket] @ more) (f # st) = run more (f' # st)"
      by (simp add: ws)
  qed
next
  case False
  from reads_elements [OF assms False] obtain tk where
    l: "\<And>rest r. tokens rest = Some r \<Longrightarrow>
          tokens (join [0x2C] ts @ 0x5D # rest) = Some (tk @ TRBracket # r)"
    and p: "\<And>more st. run (tk @ more) (ArrOpen # st) = run more (ArrVal ws # st)"
    by blast
  show ?thesis
    unfolding reads_def
  proof (rule exI [of _ "TLBracket # tk @ [TRBracket]"], unfold reads_as_def, intro conjI allI impI)
    fix rest r
    assume "tokens rest = Some r"
    from l [OF this]
    show "tokens (([0x5B] @ join [0x2C] ts @ [0x5D]) @ rest) = Some ((TLBracket # tk @ [TRBracket]) @ r)"
      by (simp add: tokens_punct)
  next
    fix more f f' st
    assume s: "supply_value (JArr ws) f = Some f'"
    then have "wants_value f" by (cases f) auto
    then have "run ((TLBracket # tk @ [TRBracket]) @ more) (f # st)
        = run (tk @ TRBracket # more) (ArrOpen # f # st)"
      by simp
    also have "\<dots> = run (TRBracket # more) (ArrVal ws # f # st)" by (rule p)
    also have "\<dots> = run more (f' # st)" using s by simp
    finally show "run ((TLBracket # tk @ [TRBracket]) @ more) (f # st) = run more (f' # st)" .
  qed
qed

lemma put_fresh: "k \<notin> fst ` set ps \<Longrightarrow> put ps k v = ps @ [(k, v)]"
  by (induction ps) auto

lemma puts_distinct: "distinct (map fst (ps @ kws)) \<Longrightarrow> puts ps kws = ps @ kws"
proof (induction kws arbitrary: ps)
  case Nil
  show ?case by (simp add: puts_def)
next
  case (Cons kw kws)
  from Cons.prems have "fst kw \<notin> fst ` set ps" by auto
  then have "put ps (fst kw) (snd kw) = ps @ [kw]" by (simp add: put_fresh)
  moreover have "puts (ps @ [kw]) kws = (ps @ [kw]) @ kws"
    using Cons.prems by (intro Cons.IH) simp
  ultimately show ?case by (simp add: puts_def)
qed

lemma puts_Cons: "puts ps (kw # kws) = puts (put ps (fst kw) (snd kw)) kws"
  by (simp add: puts_def)

lemma reads_members:
  assumes "list_all2 member ms kws" and "ms \<noteq> []"
  shows "\<exists>tk. (\<forall>rest r. tokens rest = Some r \<longrightarrow>
                tokens (join [0x2C] ms @ 0x7D # rest) = Some (tk @ TRBrace # r))
      \<and> (\<forall>more ps st. run (tk @ more) (ObjComma ps # st) = run more (ObjVal (puts ps kws) # st))
      \<and> (\<forall>more st. run (tk @ more) (ObjOpen # st) = run more (ObjVal (puts [] kws) # st))"
  using assms
proof (induction rule: list_all2_induct)
  case Nil
  then show ?case by simp
next
  case (Cons m ms kw kws)
  from Cons.hyps(1) obtain t tv where m: "m = quote (fst kw) @ 0x3A # t"
    and tv: "reads_as tv t (snd kw)"
    by (auto simp: member_def reads_def)
  let ?mk = "TString (fst kw) # TColon # tv"
  have sv: "supply_value (snd kw) (ObjColon ps (fst kw)) = Some (ObjVal (put ps (fst kw) (snd kw)))" for ps
    by simp
  have lex: "tokens (m @ rest) = Some (?mk @ r)" if "delimited rest" "tokens rest = Some r" for rest r
    using reads_asD1 [OF tv that] by (simp add: m tokens_quote tokens_punct)
  have par: "run (?mk @ more) (ObjComma ps # st) = run more (ObjVal (put ps (fst kw) (snd kw)) # st)"
    "run (?mk @ more) (ObjOpen # st) = run more (ObjVal (put [] (fst kw) (snd kw)) # st)"
    for more ps st
    using reads_asD2 [OF tv sv, of more] by simp_all
  show ?case
  proof (cases "ms = []")
    case True
    with Cons.hyps(2) have kws: "kws = []" by simp
    show ?thesis
    proof (intro exI [of _ ?mk] conjI allI impI)
      fix rest r
      assume r: "tokens rest = Some r"
      have d: "delimited (0x7D # rest)" by (simp add: delimited_def)
      have "tokens (0x7D # rest) = Some (TRBrace # r)" using r by (simp add: tokens_punct)
      from lex [OF d this]
      show "tokens (join [0x2C] (m # ms) @ 0x7D # rest) = Some (?mk @ TRBrace # r)"
        using True by simp
    next
      fix more ps st
      show "run (?mk @ more) (ObjComma ps # st) = run more (ObjVal (puts ps (kw # kws)) # st)"
        using par(1) [of more ps st] by (simp add: kws puts_def)
    next
      fix more st
      show "run (?mk @ more) (ObjOpen # st) = run more (ObjVal (puts [] (kw # kws)) # st)"
        using par(2) [of more st] by (simp add: kws puts_def)
    qed
  next
    case False
    from Cons.IH [OF False] obtain tk' where
      l: "\<And>rest r. tokens rest = Some r \<Longrightarrow>
            tokens (join [0x2C] ms @ 0x7D # rest) = Some (tk' @ TRBrace # r)"
      and p: "\<And>more ps st. run (tk' @ more) (ObjComma ps # st) = run more (ObjVal (puts ps kws) # st)"
      by blast
    have j: "join [0x2C] (m # ms) = m @ 0x2C # join [0x2C] ms"
      using join_Cons [OF False, of "[0x2C]" m] by simp
    show ?thesis
    proof (intro exI [of _ "?mk @ TComma # tk'"] conjI allI impI)
      fix rest r
      assume r: "tokens rest = Some r"
      have d: "delimited (0x2C # join [0x2C] ms @ 0x7D # rest)" by (simp add: delimited_def)
      have "tokens (0x2C # join [0x2C] ms @ 0x7D # rest) = Some (TComma # tk' @ TRBrace # r)"
        using l [OF r] by (simp add: tokens_punct)
      from lex [OF d this]
      show "tokens (join [0x2C] (m # ms) @ 0x7D # rest) = Some ((?mk @ TComma # tk') @ TRBrace # r)"
        by (simp add: j)
    next
      fix more ps st
      have "run ((?mk @ TComma # tk') @ more) (ObjComma ps # st)
          = run (TComma # tk' @ more) (ObjVal (put ps (fst kw) (snd kw)) # st)"
        using par(1) [of "TComma # tk' @ more" ps st] by simp
      also have "\<dots> = run more (ObjVal (puts (put ps (fst kw) (snd kw)) kws) # st)"
        using p [of more "put ps (fst kw) (snd kw)" st] by simp
      finally show "run ((?mk @ TComma # tk') @ more) (ObjComma ps # st)
          = run more (ObjVal (puts ps (kw # kws)) # st)" by (simp add: puts_Cons)
    next
      fix more st
      have "run ((?mk @ TComma # tk') @ more) (ObjOpen # st)
          = run (TComma # tk' @ more) (ObjVal (put [] (fst kw) (snd kw)) # st)"
        using par(2) [of "TComma # tk' @ more" st] by simp
      also have "\<dots> = run more (ObjVal (puts (put [] (fst kw) (snd kw)) kws) # st)"
        using p [of more "put [] (fst kw) (snd kw)" st] by simp
      finally show "run ((?mk @ TComma # tk') @ more) (ObjOpen # st)
          = run more (ObjVal (puts [] (kw # kws)) # st)" by (simp add: puts_Cons)
    qed
  qed
qed

lemma reads_object:
  assumes "list_all2 member ms kws" and "distinct (map fst kws)"
  shows "reads ([0x7B] @ join [0x2C] ms @ [0x7D]) (JObj kws)"
proof (cases "ms = []")
  case True
  with assms have kws: "kws = []" by simp
  show ?thesis
    unfolding reads_def
  proof (rule exI [of _ "[TLBrace, TRBrace]"], unfold reads_as_def, intro conjI allI impI)
    fix rest r
    assume "tokens rest = Some r"
    then show "tokens (([0x7B] @ join [0x2C] ms @ [0x7D]) @ rest) = Some ([TLBrace, TRBrace] @ r)"
      by (simp add: True tokens_punct)
  next
    fix more f f' st
    assume s: "supply_value (JObj kws) f = Some f'"
    then have "wants_value f" by (cases f) auto
    with s show "run ([TLBrace, TRBrace] @ more) (f # st) = run more (f' # st)"
      by (simp add: kws)
  qed
next
  case False
  from reads_members [OF assms(1) False] obtain tk where
    l: "\<And>rest r. tokens rest = Some r \<Longrightarrow>
          tokens (join [0x2C] ms @ 0x7D # rest) = Some (tk @ TRBrace # r)"
    and p: "\<And>more st. run (tk @ more) (ObjOpen # st) = run more (ObjVal (puts [] kws) # st)"
    by blast
  have pk: "puts [] kws = kws" using puts_distinct [of "[]" kws] assms(2) by simp
  show ?thesis
    unfolding reads_def
  proof (rule exI [of _ "TLBrace # tk @ [TRBrace]"], unfold reads_as_def, intro conjI allI impI)
    fix rest r
    assume "tokens rest = Some r"
    from l [OF this]
    show "tokens (([0x7B] @ join [0x2C] ms @ [0x7D]) @ rest) = Some ((TLBrace # tk @ [TRBrace]) @ r)"
      by (simp add: tokens_punct)
  next
    fix more f f' st
    assume s: "supply_value (JObj kws) f = Some f'"
    then have "wants_value f" by (cases f) auto
    then have "run ((TLBrace # tk @ [TRBrace]) @ more) (f # st)
        = run (tk @ TRBrace # more) (ObjOpen # f # st)"
      by simp
    also have "\<dots> = run (TRBrace # more) (ObjVal kws # f # st)" using p pk by simp
    also have "\<dots> = run more (f' # st)" using s by simp
    finally show "run ((TLBrace # tk @ [TRBrace]) @ more) (f # st) = run more (f' # st)" .
  qed
qed

lemma serialize_None: "serialize x = Inr None \<longleftrightarrow> dropped x"
  by (cases x) (auto split: sum.splits)

lemma round_trip_keys:
  "map fst (round_trip_properties ps) = map fst (filter (\<lambda>p. \<not> dropped (snd p)) ps)"
  by (induction ps) auto

lemma reads_serialize:
  "plain v \<Longrightarrow> serialize v = Inr (Some t) \<Longrightarrow> reads t (round_trip v)"
  "plain_elements xs \<Longrightarrow> serialize_elements xs = Inr ts \<Longrightarrow>
     list_all2 reads ts (round_trip_elements xs)"
  "plain_properties ps \<Longrightarrow> serialize_properties ps = Inr ms \<Longrightarrow>
     list_all2 member ms (round_trip_properties ps)"
proof (induction v and xs and ps arbitrary: t and ts and ms
    rule: serialize_serialize_elements_serialize_properties.induct)
  case 1
  then show ?case by simp
next
  case (2 src)
  then show ?case by simp
next
  case 3
  then show ?case by simp
next
  case 4
  then show ?case using reads_literal by auto
next
  case (5 b)
  then show ?case using reads_literal by (cases b) auto
next
  case (6 n)
  then show ?case using reads_literal reads_number by (cases n) auto
next
  case (7 s)
  then show ?case using reads_string by auto
next
  case (8 xs)
  from "8.prems" obtain ts where ts: "serialize_elements xs = Inr ts"
    and t: "t = [0x5B] @ join [0x2C] ts @ [0x5D]"
    by (auto split: sum.splits)
  from "8.IH" [OF _ ts] "8.prems"(1) have "list_all2 reads ts (round_trip_elements xs)" by simp
  then show ?case unfolding t by (simp add: reads_array del: append.simps)
next
  case (9 ps)
  from "9.prems" obtain ms where ms: "serialize_properties ps = Inr ms"
    and t: "t = [0x7B] @ join [0x2C] ms @ [0x7D]"
    by (auto split: sum.splits)
  from "9.IH" [OF _ ms] "9.prems"(1) have "list_all2 member ms (round_trip_properties ps)" by simp
  moreover have "distinct (map fst (round_trip_properties ps))"
    using "9.prems"(1) by (simp add: round_trip_keys distinct_map_filter)
  ultimately show ?case unfolding t by (simp add: reads_object del: append.simps)
next
  case 10
  then show ?case by simp
next
  case (11 x xs)
  from "11.prems" obtain tx ts' where x: "serialize x = Inr tx"
    and xs: "serialize_elements xs = Inr ts'"
    and ts: "ts = (case tx of None \<Rightarrow> u ''null'' | Some txt \<Rightarrow> txt) # ts'"
    by (auto split: sum.splits)
  have "reads (case tx of None \<Rightarrow> u ''null'' | Some txt \<Rightarrow> txt)
          (if dropped x then JNull else round_trip x)"
  proof (cases tx)
    case None
    with x serialize_None [of x] show ?thesis by (simp add: reads_literal)
  next
    case (Some body)
    with x serialize_None [of x] have "\<not> dropped x" by auto
    with Some x "11.IH"(1) "11.prems"(1) show ?thesis by simp
  qed
  moreover have "list_all2 reads ts' (round_trip_elements xs)"
    using "11.IH"(2) [OF x _ xs] "11.prems"(1) by simp
  ultimately show ?case by (simp add: ts)
next
  case 12
  then show ?case by simp
next
  case (13 p ps)
  from "13.prems" obtain tx ms' where x: "serialize (snd p) = Inr tx"
    and ps: "serialize_properties ps = Inr ms'"
    and ms: "ms = (case tx of None \<Rightarrow> ms' | Some txt \<Rightarrow> (quote (fst p) @ [0x3A] @ txt) # ms')"
    by (auto split: sum.splits)
  have tail: "list_all2 member ms' (round_trip_properties ps)"
    using "13.IH"(2) [OF x _ ps] "13.prems"(1) by simp
  show ?case
  proof (cases tx)
    case None
    with x serialize_None [of "snd p"] tail ms show ?thesis by simp
  next
    case (Some body)
    with x serialize_None [of "snd p"] have nd: "\<not> dropped (snd p)" by auto
    from Some x "13.IH"(1) "13.prems"(1) have "reads body (round_trip (snd p))" by simp
    then have "member (quote (fst p) @ [0x3A] @ body) (fst p, round_trip (snd p))"
      by (auto simp: member_def)
    with tail nd Some ms show ?thesis by simp
  qed
qed

theorem JSON_round_trip:
  assumes "plain v" and "JSON_stringify v = Inr (Some t)"
  shows "JSON_parse t = Inr (round_trip v)"
proof -
  from reads_serialize(1) [OF assms(1)] assms(2) obtain tk where tk: "reads_as tk t (round_trip v)"
    by (auto simp: JSON_stringify_def reads_def)
  have "tokens (t @ []) = Some (tk @ [])"
    by (rule reads_asD1 [OF tk]) (simp_all add: delimited_def)
  moreover have "run (tk @ []) [Top] = run [] [Complete (round_trip v)]"
    by (rule reads_asD2 [OF tk]) simp
  ultimately show ?thesis by (simp add: JSON_parse_def)
qed

subsection \<open>Writing and reading back with the default configuration\<close>

lemma set_plain:
  assumes "supportsLS e s = (Inr True, s1)" and "localStorage s1 = Storage kvs"
    and "\<not> hasTTL_of (ttl (effective (config s1) lc))"
    and "encrypt (effective (config s1) lc) \<noteq> Some True"
    and "JSON_stringify v = Inr (Some t)"
  shows "ls_set e key v lc s = (Inr JUndefined, s1\<lparr>localStorage := Storage (put kvs key t)\<rparr>)"
  using assms
  by (cases "cb (effective (config s1) lc)")
     (simp_all add: ls_set_def set_try_def set_value_def Let_def setItem_def)

lemma get_stored:
  assumes "hasLS s = Some True" and "localStorage s = Storage kvs" and "map_of kvs key = Some t"
    and "JSON_parse t = Inr w"
  shows "ls_get e key lc s =
     (if \<not> is_envelope w then (Inr (decrypted e (effective (config s) lc) w), s)
      else
        (case now_after (now e) (prop_of (decrypted e (effective (config s) lc) w) (u ''ttl'')) of
           Inl x \<Rightarrow> (Inl x, s)
         | Inr expired \<Rightarrow>
             if expired then (Inr JNull, snd (removeItem key s))
             else (Inr (prop_of (decrypted e (effective (config s) lc) w) APX), s)))"
  by (rule ls_get_parsed [OF supportsLS_probed [OF assms(1)] _ assms(4)])
     (simp add: getItem_def assms)

lemma effective_default:
  "ttl (effective config_init no_override) = TtlNull"
  "encrypt (effective config_init no_override) = Some False"
  "decrypt (effective config_init no_override) = None"
  by (simp_all add: effective_def config_init_def no_override_def)

lemma set_get_default:
  assumes "supportsLS e s = (Inr True, s1)" and "localStorage s1 = Storage kvs"
    and "config s = config_init"
    and "JSON_stringify v = Inr (Some t)" and "JSON_parse t = Inr w"
  shows "ls_set e key v no_override s = (Inr JUndefined, s1\<lparr>localStorage := Storage (put kvs key t)\<rparr>)"
    and "ls_get e' key no_override (s1\<lparr>localStorage := Storage (put kvs key t)\<rparr>) =
     (if \<not> is_envelope w then (Inr w, s1\<lparr>localStorage := Storage (put kvs key t)\<rparr>)
      else
        (case now_after (now e') (prop_of w (u ''ttl'')) of
           Inl x \<Rightarrow> (Inl x, s1\<lparr>localStorage := Storage (put kvs key t)\<rparr>)
         | Inr expired \<Rightarrow>
             if expired
             then (Inr JNull, snd (removeItem key (s1\<lparr>localStorage := Storage (put kvs key t)\<rparr>)))
             else (Inr (prop_of w APX), s1\<lparr>localStorage := Storage (put kvs key t)\<rparr>)))"
proof -
  note st = supportsLS_state [OF assms(1)]
  have c: "config s1 = config_init" using st assms(3) by simp
  show "ls_set e key v no_override s = (Inr JUndefined, s1\<lparr>localStorage := Storage (put kvs key t)\<rparr>)"
    by (rule set_plain [OF assms(1,2) _ _ assms(4)]) (simp_all add: c effective_default)
  let ?s = "s1\<lparr>localStorage := Storage (put kvs key t)\<rparr>"
  have d: "decrypted e' (effective (config ?s) no_override) w = w"
    by (rule decrypted_off) (simp_all add: c effective_default)
  have "hasLS ?s = Some True" "localStorage ?s = Storage (put kvs key t)"
    "map_of (put kvs key t) key = Some t"
    using st by (simp_all add: map_of_put)
  from get_stored [OF this assms(5), of e' no_override]
  show "ls_get e' key no_override ?s =
     (if \<not> is_envelope w then (Inr w, ?s)
      else
        (case now_after (now e') (prop_of w (u ''ttl'')) of
           Inl x \<Rightarrow> (Inl x, ?s)
         | Inr expired \<Rightarrow>
             if expired then (Inr JNull, snd (removeItem key ?s))
             else (Inr (prop_of w APX), ?s)))"
    unfolding d .
qed

lemma marker_object_text:
  "JSON_stringify (JObj [(APX, JNum (num 1)), (u ''a'', JNum (num 2))])
     = Inr (Some (u ''{'' @ quote APX @ u '':1,\"a\":2}''))"
  by code_simp

lemma marker_object_parse:
  "JSON_parse (u ''{'' @ quote APX @ u '':1,\"a\":2}'')
     = Inr (JObj [(APX, JNum (num 1)), (u ''a'', JNum (num 2))])"
  by code_simp

text \<open>
  C3, as stated, at the object \<open>{"\u0000": 1, a: 2}\<close>, which its own round trip through
  the codec leaves as it is: after \<open>set\<close> with the default configuration and no TTL,
  \<open>get\<close> returns the number 1 stored under the NUL key, not the object.
\<close>

theorem set_get_marker_counterexample:
  "ls_set (env_at 0) (u ''k'') (JObj [(APX, JNum (num 1)), (u ''a'', JNum (num 2))]) no_override (probed [])
     = (Inr JUndefined, probed [(u ''k'', u ''{'' @ quote APX @ u '':1,\"a\":2}'')])
   \<and> ls_get (env_at 0) (u ''k'') no_override (probed [(u ''k'', u ''{'' @ quote APX @ u '':1,\"a\":2}'')])
     = (Inr (JNum (num 1)), probed [(u ''k'', u ''{'' @ quote APX @ u '':1,\"a\":2}'')])
   \<and> JSON_parse (u ''{'' @ quote APX @ u '':1,\"a\":2}'')
     = Inr (JObj [(APX, JNum (num 1)), (u ''a'', JNum (num 2))])
   \<and> JNum (num 1) \<noteq> JObj [(APX, JNum (num 1)), (u ''a'', JNum (num 2))]"
proof -
  have p: "supportsLS (env_at 0) (probed []) = (Inr True, probed [])"
    by (simp add: supportsLS_probed probed_def)
  have e: "is_envelope (JObj [(APX, JNum (num 1)), (u ''a'', JNum (num 2))])"
    by (simp add: is_envelope_def has_own_def)
  have n: "now_after 0 (prop_of (JObj [(APX, JNum (num 1)), (u ''a'', JNum (num 2))]) (u ''ttl''))
      = Inr False"
    by (simp add: now_after_def prop_of_def u_def APX_def)
  have v: "prop_of (JObj [(APX, JNum (num 1)), (u ''a'', JNum (num 2))]) APX = JNum (num 1)"
    by (simp add: prop_of_def)
  have s: "probed [] \<lparr>localStorage := Storage (put [] (u ''k'') (u ''{'' @ quote APX @ u '':1,\"a\":2}''))\<rparr>
      = probed [(u ''k'', u ''{'' @ quote APX @ u '':1,\"a\":2}'')]"
    by (simp add: probed_def)
  have h: "localStorage (probed []) = Storage []" "config (probed []) = config_init"
    by (simp_all add: probed_def)
  note r = set_get_default [OF p h marker_object_text marker_object_parse]
  from r(1) [where key = "u ''k''"] r(2) [where key = "u ''k''" and e' = "env_at 0"]
  show ?thesis
    unfolding s by (simp add: e n v env_at_def marker_object_parse)
qed


text \<open>
  C3, amended: in a module that has probed a usable store and runs with the default
  configuration, for every key and every value \<open>v\<close> that \<open>JSON.stringify\<close> turns into a
  text, \<open>set\<close> with no override returns \<open>undefined\<close> and a following \<open>get\<close> returns the
  round trip of \<open>v\<close> through the text codec (fields holding \<open>undefined\<close> or a function
  dropped, \<open>null\<close> preserved), provided that round trip is not an object that has the
  NUL marker key.
\<close>

theorem set_get_round_trip:
  assumes "supportsLS e s = (Inr True, s1)" and "localStorage s1 = Storage kvs"
    and "config s = config_init"
    and "plain v" and "JSON_stringify v = Inr (Some t)"
    and "\<not> is_envelope (round_trip v)"
  shows "ls_set e key v no_override s
           = (Inr JUndefined, s1\<lparr>localStorage := Storage (put kvs key t)\<rparr>)
       \<and> ls_get e' key no_override (s1\<lparr>localStorage := Storage (put kvs key t)\<rparr>)
           = (Inr (round_trip v), s1\<lparr>localStorage := Storage (put kvs key t)\<rparr>)"
  using set_get_default [OF assms(1-3,5) JSON_round_trip [OF assms(4,5)]] assms(6)
  by simp

lemma sample_object_text:
  "JSON_stringify (JObj [(u ''a'', JNull), (u ''b'', JUndefined), (u ''c'', JStr (u ''xyz'')),
       (u ''f'', JFun (u ''() => 1'')), (u ''e'', JArr [JStr (u ''x''), JNum (num 1), JUndefined])])
     = Inr (Some (u ''{\"a\":null,\"c\":\"xyz\",\"e\":[\"x\",1,null]}''))"
  by code_simp

theorem set_get_round_trip_witness:
  "ls_set (env_at 0) (u ''k'')
      (JObj [(u ''a'', JNull), (u ''b'', JUndefined), (u ''c'', JStr (u ''xyz'')),
             (u ''f'', JFun (u ''() => 1'')), (u ''e'', JArr [JStr (u ''x''), JNum (num 1), JUndefined])])
      no_override (probed [])
     = (Inr JUndefined, probed [(u ''k'', u ''{\"a\":null,\"c\":\"xyz\",\"e\":[\"x\",1,null]}'')])
   \<and> ls_get (env_at 5) (u ''k'') no_override
        (probed [(u ''k'', u ''{\"a\":null,\"c\":\"xyz\",\"e\":[\"x\",1,null]}'')])
     = (Inr (JObj [(u ''a'', JNull), (u ''c'', JStr (u ''xyz'')),
                   (u ''e'', JArr [JStr (u ''x''), JNum (num 1), JNull])]),
        probed [(u ''k'', u ''{\"a\":null,\"c\":\"xyz\",\"e\":[\"x\",1,null]}'')])"
proof -
  let ?v = "JObj [(u ''a'', JNull), (u ''b'', JUndefined), (u ''c'', JStr (u ''xyz'')),
       (u ''f'', JFun (u ''() => 1'')), (u ''e'', JArr [JStr (u ''x''), JNum (num 1), JUndefined])]"
  let ?t = "u ''{\"a\":null,\"c\":\"xyz\",\"e\":[\"x\",1,null]}''"
  have p: "supportsLS (env_at 0) (probed []) = (Inr True, probed [])"
    by (simp add: supportsLS_probed probed_def)
  have h: "localStorage (probed []) = Storage []" "config (probed []) = config_init"
    by (simp_all add: probed_def)
  have pl: "plain ?v" by (simp add: u_def num_def)
  have rt: "round_trip ?v = JObj [(u ''a'', JNull), (u ''c'', JStr (u ''xyz'')),
                   (u ''e'', JArr [JStr (u ''x''), JNum (num 1), JNull])]"
    by (simp add: num_def)
  have ne: "\<not> is_envelope (round_trip ?v)"
    unfolding rt by (simp add: is_envelope_def has_own_def u_def APX_def)
  have s: "probed [] \<lparr>localStorage := Storage (put [] (u ''k'') ?t)\<rparr> = probed [(u ''k'', ?t)]"
    by (simp add: probed_def)
  from set_get_round_trip [OF p h pl sample_object_text ne, where key = "u ''k''" and e' = "env_at 5"]
  show ?thesis unfolding s rt .
qed












text \<open>\<open>get\<close> evaluated on two stored objects, from the definitions alone: one with the NUL
  key, one without it that has a \<open>ttl\<close> field in the past.\<close>

lemma sample_marker_run:
  "fst (ls_get (env_at 5) (u ''k'') no_override
        (probed [(u ''k'', u ''{'' @ quote [0] @ u '':\"inner\",\"b\":true}'')]))
     = Inr (JStr (u ''inner''))"
  "fst (ls_get (env_at 10) (u ''k'') no_override (probed [(u ''k'', u ''{\"ttl\":5,\"a\":1}'')]))
     = Inr (JObj [(u ''ttl'', JNum (num 5)), (u ''a'', JNum (num 1))])"
  by code_simp+


subsection \<open>Writing an entry with a time to live\<close>

lemma getItem_removeItem_other:
  "k \<noteq> key \<Longrightarrow> getItem key (snd (removeItem k s)) = getItem key s"
proof (cases "localStorage s")
  case Unavailable
  then show ?thesis by (simp add: getItem_def removeItem_def)
next
  case (Storage kvs)
  assume "k \<noteq> key"
  then have "map_of (filter (\<lambda>p. fst p \<noteq> k) kvs) key = map_of kvs key"
    by (induction kvs) auto
  with Storage show ?thesis by (simp add: getItem_def removeItem_def)
qed


lemma getItem_store: "localStorage s' = localStorage s \<Longrightarrow> getItem key s' = getItem key s"
  by (simp add: getItem_def)

lemma flush_key_store:
  "localStorage (snd (flush_key e force k s)) = localStorage s
     \<or> snd (flush_key e force k s) = snd (removeItem k s)"
  unfolding flush_key_def
  by (simp split: sum.splits option.splits)

lemma flush_key_keeps:
  assumes "getItem key s = Inr (Some t)" and "JSON_parse t = Inr item"
    and "now_after (now e) (prop_of item (u ''ttl'')) = Inr False"
  shows "getItem key (snd (flush_key e False k s)) = Inr (Some t)"
proof (cases "k = key")
  case True
  have "localStorage (snd (flush_key e False key s)) = localStorage s"
    unfolding flush_key_def using assms parse_nonempty [OF assms(2)]
    by (simp split: sum.splits)
  from getItem_store [OF this] assms(1) True show ?thesis by simp
next
  case False
  from flush_key_store [of e False k s] show ?thesis
  proof
    assume "localStorage (snd (flush_key e False k s)) = localStorage s"
    from getItem_store [OF this] assms(1) show ?thesis by simp
  next
    assume "snd (flush_key e False k s) = snd (removeItem k s)"
    with getItem_removeItem_other [OF False, of s] assms(1) show ?thesis by simp
  qed
qed

lemma flush_keys_keeps:
  assumes "getItem key s = Inr (Some t)" and "JSON_parse t = Inr item"
    and "now_after (now e) (prop_of item (u ''ttl'')) = Inr False"
  shows "getItem key (snd (flush_keys e False ks s)) = Inr (Some t)"
  using assms(1)
proof (induction ks arbitrary: s)
  case Nil
  then show ?case by simp
next
  case (Cons k ks)
  obtain r1 s1 where k: "flush_key e False k s = (r1, s1)" by (cases "flush_key e False k s")
  from flush_key_keeps [OF Cons.prems assms(2,3), of k] k
  have g: "getItem key s1 = Inr (Some t)" by simp
  show ?case
  proof (cases r1)
    case (Inl x)
    with k g show ?thesis by simp
  next
    case (Inr y)
    with k Cons.IH [OF g] show ?thesis by simp
  qed
qed

lemma poll_keeps:
  assumes "hasLS s = Some True" and "getItem key s = Inr (Some t)" and "JSON_parse t = Inr item"
    and "now_after (now e) (prop_of item (u ''ttl'')) = Inr False"
  shows "getItem key (snd (poll e False s)) = Inr (Some t)"
proof -
  let ?s = "s\<lparr>cbRefs := []\<rparr>"
  have g: "getItem key ?s = Inr (Some t)" using assms(2) by (simp add: getItem_def)
  then obtain kvs where kvs: "localStorage ?s = Storage kvs"
    by (cases "localStorage ?s") (simp_all add: getItem_def)
  have p: "supportsLS e ?s = (Inr True, ?s)" using assms(1) by (simp add: supportsLS_probed)
  obtain r s' where f: "flush_keys e False (map fst kvs) ?s = (r, s')"
    by (cases "flush_keys e False (map fst kvs) ?s")
  from flush_keys_keeps [OF g assms(3,4), of "map fst kvs"] f
  have "getItem key s' = Inr (Some t)" by simp
  moreover have "snd (poll e False s) = s'"
    using kvs f by (simp add: poll_def flush_def p flush_store_def keys_of_def split: sum.splits)
  ultimately show ?thesis by simp
qed


lemma hasTTL_positive: "num_less (num 0) n \<Longrightarrow> hasTTL_of (TtlNum n)"
  by (cases n) (auto simp: isNaN_def num_def)

lemma set_value_ttl:
  assumes "ttl conf = TtlNum n" and "num_less (num 0) n"
    and "(if encrypt conf = Some True
          then crypt_or_NOOP e (encrypter conf) v (secret conf) else Inr v) = Inr payload"
  shows "set_value e v conf =
     Inr (JObj (([0], payload)
            # (u ''ttl'', JNum (js_add e (num (now e)) (js_mul e n (num 1000))))
            # (case cb conf of JFun src \<Rightarrow> [(u ''cb'', JStr src)] | _ \<Rightarrow> [])))"
proof -
  have h: "hasTTL_of (ttl conf)" unfolding assms(1) by (rule hasTTL_positive [OF assms(2)])
  have k: "[0] \<noteq> u ''cb''" "[0] \<noteq> u ''ttl''" by (simp_all add: u_def)
  show ?thesis
  proof (cases "encrypt conf = Some True")
    case True
    with assms(3) have "crypt_or_NOOP e (encrypter conf) v (secret conf) = Inr payload" by simp
    with True h assms(1) k show ?thesis
      by (cases "cb conf") (simp_all add: set_value_def Let_def prop_of_def set_prop_def APX_def)
  next
    case False
    with assms(3) have "payload = v" by simp
    with False h assms(1) k show ?thesis
      by (cases "cb conf") (simp_all add: set_value_def Let_def prop_of_def set_prop_def APX_def)
  qed
qed

lemma set_ttl_stored:
  assumes "supportsLS e s = (Inr True, s1)" and "localStorage s1 = Storage kvs"
    and "conf = effective (config s1) lc"
    and "ttl conf = TtlNum n" and "num_less (num 0) n"
    and "(if encrypt conf = Some True
          then crypt_or_NOOP e (encrypter conf) v (secret conf) else Inr v) = Inr payload"
    and "plain payload"
    and "js_add e (num (now e)) (js_mul e n (num 1000)) = Fin b i"
    and "plain (JNum (Fin b i))" and "\<not> num_less (Fin b i) (num (now e))"
    and "cbs = (case cb conf of JFun src \<Rightarrow> [(u ''cb'', JStr src)] | _ \<Rightarrow> [])"
    and "JSON_stringify (JObj (([0], payload) # (u ''ttl'', JNum (Fin b i)) # cbs)) = Inr (Some t)"
  shows "set_value e v conf = Inr (JObj (([0], payload) # (u ''ttl'', JNum (Fin b i)) # cbs))"
    and "getItem key (snd (ls_set e key v lc s)) = Inr (Some t)"
    and "JSON_parse t = Inr (round_trip (JObj (([0], payload) # (u ''ttl'', JNum (Fin b i)) # cbs)))"
proof -
  let ?env = "JObj (([0], payload) # (u ''ttl'', JNum (Fin b i)) # cbs)"
  have k: "[0] \<noteq> u ''cb''" "[0] \<noteq> u ''ttl''" by (simp_all add: u_def)
  have f: "cbs = [] \<or> (\<exists>src. cbs = [(u ''cb'', JStr src)])"
    using assms(11) by (cases "cb conf") simp_all
  have pl: "plain ?env" using f assms(7,9) k by auto
  show val: "set_value e v conf = Inr ?env"
    unfolding assms(8) [symmetric] assms(11) by (rule set_value_ttl [OF assms(4,5,6)])
  show parse: "JSON_parse t = Inr (round_trip ?env)"
    by (rule JSON_round_trip [OF pl assms(12)])
  have field: "prop_of (round_trip ?env) (u ''ttl'') = JNum (Fin b i)"
    using f k by (auto simp: prop_of_def)
  have fresh: "now_after (now e) (prop_of (round_trip ?env) (u ''ttl'')) = Inr False"
    unfolding field using assms(10) by (simp add: now_after_def)
  let ?s2 = "s1\<lparr>localStorage := Storage (put kvs key t)\<rparr>"
  note st = supportsLS_state [OF assms(1)]
  have h: "hasLS ?s2 = Some True" using st by simp
  have g: "getItem key ?s2 = Inr (Some t)" by (simp add: getItem_def map_of_put)
  have keep: "getItem key (snd (poll e False ?s2)) = Inr (Some t)"
    by (rule poll_keeps [OF h g parse fresh])
  have ht: "hasTTL_of (ttl (effective (config s1) lc))"
    unfolding assms(3) [symmetric] assms(4) by (rule hasTTL_positive [OF assms(5)])
  have "snd (ls_set e key v lc s) = snd (poll e False ?s2)"
    using assms(1,2) val [unfolded assms(3)] assms(12) ht
    by (simp add: ls_set_def set_try_def setItem_def split: prod.splits sum.splits)
  with keep show "getItem key (snd (ls_set e key v lc s)) = Inr (Some t)" by simp
qed

lemma obfus_a: "obfus (JStr (u ''a'')) (JNum (num 75)) True = Inr (JStr [0x6D, 0xAC, 0x6D])"
  by code_simp

lemma expiry_sample: "num_add (num 1000) (num_mul (num 5) (num 1000)) = Fin 6000 0"
  by code_simp

lemma envelope_sample_text:
  "JSON_stringify (JObj [([0], JStr [0x6D, 0xAC, 0x6D]), (u ''ttl'', JNum (Fin 6000 0)),
       (u ''cb'', JStr (u ''f''))])
     = Inr (Some (u ''{'' @ quote [0] @ u '':'' @ quote [0x6D, 0xAC, 0x6D]
                   @ u '',\"ttl\":6000,\"cb\":\"f\"}''))"
  by code_simp

lemma bare_ttl_text:
  "JSON_stringify (JObj [([0], JUndefined), (u ''ttl'', JNum (Fin 6000 0))])
     = Inr (Some (u ''{\"ttl\":6000}''))"
  by code_simp

lemma bare_ttl_unmarked: "\<not> envelope_text (u ''{\"ttl\":6000}'')"
  by code_simp

text \<open>
  C4, as stated, at \<open>set('k', undefined, {ttl: 5})\<close> at time 1000 in a module that has probed
  an empty store: the entry persisted is \<open>{"ttl":6000}\<close>, which has no marker key, because
  \<open>JSON.stringify\<close> leaves out a field that holds \<open>undefined\<close>.
\<close>

theorem set_ttl_envelope_counterexample:
  "getItem (u ''k'')
     (snd (ls_set (env_at 1000) (u ''k'') JUndefined (no_override\<lparr>l_ttl := TtlNum (num 5)\<rparr>)
             (probed [])))
     = Inr (Some (u ''{\"ttl\":6000}''))
   \<and> \<not> envelope_text (u ''{\"ttl\":6000}'')"
proof -
  let ?lc = "no_override\<lparr>l_ttl := TtlNum (num 5)\<rparr>"
  let ?conf = "effective config_init ?lc"
  have p: "supportsLS (env_at 1000) (probed []) = (Inr True, probed [])"
    by (simp add: supportsLS_probed probed_def)
  have h: "localStorage (probed []) = Storage []"
    by (simp add: probed_def)
  have c: "?conf = effective (config (probed [])) ?lc"
    by (simp add: probed_def)
  have t: "ttl ?conf = TtlNum (num 5)" "num_less (num 0) (num 5)"
    by (simp_all add: effective_def no_override_def num_def)
  have en: "(if encrypt ?conf = Some True
             then crypt_or_NOOP (env_at 1000) (encrypter ?conf) JUndefined (secret ?conf)
             else Inr JUndefined) = Inr JUndefined"
    by (simp add: effective_def no_override_def config_init_def)
  have ex: "js_add (env_at 1000) (num (now (env_at 1000))) (js_mul (env_at 1000) (num 5) (num 1000))
      = Fin 6000 0"
    by (simp add: env_at_def expiry_sample)
  have pe: "plain (JNum (Fin 6000 0))" "\<not> num_less (Fin 6000 0) (num (now (env_at 1000)))"
    by (simp_all add: env_at_def num_def)
  have cb: "[] = (case cb ?conf of JFun src \<Rightarrow> [(u ''cb'', JStr src)] | _ \<Rightarrow> [])"
    by (simp add: effective_def no_override_def config_init_def)
  have "getItem (u ''k'') (snd (ls_set (env_at 1000) (u ''k'') JUndefined ?lc (probed [])))
      = Inr (Some (u ''{\"ttl\":6000}''))"
    by (rule set_ttl_stored(2) [OF p h c t en _ ex pe cb bare_ttl_text]) simp
  with bare_ttl_unmarked show ?thesis by simp
qed

text \<open>
  C4, amended: in a module that has probed a usable store, for every \<open>set\<close> whose effective
  TTL is a positive number, whose expiry \<open>now + ttl * 1000\<close>, as the platform computes it, is
  a finite number not before now, and whose payload (the value, or what the encrypter
  returns for the value when obfuscation is on) is a value that \<open>JSON.stringify\<close> keeps and
  turns into a text: the value serialised is the object with the payload under the key
  made of the one character NUL, then \<open>ttl\<close> holding that expiry, then \<open>cb\<close> holding the
  source of the callback when the configuration has a function there; the encrypter has
  been run on the payload alone; the text of that object is what the store holds under
  the key when \<open>set\<close> returns, and it parses to the object with the same NUL key, \<open>ttl\<close>
  and \<open>cb\<close>. Nothing is said of an expiry that is not finite.
\<close>

theorem set_ttl_envelope:
  assumes "supportsLS e s = (Inr True, s1)" and "localStorage s1 = Storage kvs"
    and "conf = effective (config s1) lc"
    and "ttl conf = TtlNum n" and "num_less (num 0) n"
    and "(if encrypt conf = Some True
          then crypt_or_NOOP e (encrypter conf) v (secret conf) else Inr v) = Inr payload"
    and "plain payload" and "\<not> dropped payload"
    and "js_add e (num (now e)) (js_mul e n (num 1000)) = Fin b i"
    and "plain (JNum (Fin b i))" and "\<not> num_less (Fin b i) (num (now e))"
    and "cbs = (case cb conf of JFun src \<Rightarrow> [(u ''cb'', JStr src)] | _ \<Rightarrow> [])"
    and "JSON_stringify (JObj (([0], payload) # (u ''ttl'', JNum (Fin b i)) # cbs)) = Inr (Some t)"
  shows "set_value e v conf
           = Inr (JObj (([0], payload)
                     # (u ''ttl'', JNum (js_add e (num (now e)) (js_mul e n (num 1000)))) # cbs))
     \<and> getItem key (snd (ls_set e key v lc s)) = Inr (Some t)
     \<and> JSON_parse t = Inr (JObj (([0], round_trip payload) # (u ''ttl'', JNum (Fin b i)) # cbs))"
proof -
  note stored = set_ttl_stored [OF assms(1-7,9-13)]
  have "cbs = [] \<or> (\<exists>src. cbs = [(u ''cb'', JStr src)])"
    using assms(12) by (cases "cb conf") simp_all
  then have "round_trip (JObj (([0], payload) # (u ''ttl'', JNum (Fin b i)) # cbs))
      = JObj (([0], round_trip payload) # (u ''ttl'', JNum (Fin b i)) # cbs)"
    using assms(8) by auto
  with stored(1) stored(2) [of key] stored(3) assms(9) show ?thesis by simp
qed

text \<open>\<open>set\<close> with a TTL, obfuscation and a callback, evaluated from the definitions alone.\<close>

lemma sample_envelope_run:
  "getItem (u ''k'')
        (snd (ls_set (env_at 1000) (u ''k'') (JStr (u ''a''))
                (no_override\<lparr>l_ttl := TtlNum (num 5), l_encrypt := Some True,
                   l_cb := Given (JFun (u ''f''))\<rparr>) (probed [])))
     = Inr (Some (u ''{'' @ quote [0] @ u '':'' @ quote [0x6D, 0xAC, 0x6D]
                   @ u '',\"ttl\":6000,\"cb\":\"f\"}''))"
  by code_simp

text \<open>
  The amended C4 at \<open>set('k', 'a', {ttl: 5, encrypt: true, cb: f})\<close> at time 1000 with the
  configuration the module starts with: the payload is the obfuscated text of \<open>"a"\<close>, the
  \<open>ttl\<close> field is 6000 and the \<open>cb\<close> field is the source of \<open>f\<close>, both left as they are.
\<close>

theorem set_ttl_envelope_witness:
  "set_value (env_at 1000) (JStr (u ''a''))
      (effective config_init
         (no_override\<lparr>l_ttl := TtlNum (num 5), l_encrypt := Some True,
            l_cb := Given (JFun (u ''f''))\<rparr>))
     = Inr (JObj [([0], JStr [0x6D, 0xAC, 0x6D]), (u ''ttl'', JNum (Fin 6000 0)),
                  (u ''cb'', JStr (u ''f''))])
   \<and> getItem (u ''k'')
        (snd (ls_set (env_at 1000) (u ''k'') (JStr (u ''a''))
                (no_override\<lparr>l_ttl := TtlNum (num 5), l_encrypt := Some True,
                   l_cb := Given (JFun (u ''f''))\<rparr>) (probed [])))
     = Inr (Some (u ''{'' @ quote [0] @ u '':'' @ quote [0x6D, 0xAC, 0x6D]
                   @ u '',\"ttl\":6000,\"cb\":\"f\"}''))
   \<and> JSON_parse (u ''{'' @ quote [0] @ u '':'' @ quote [0x6D, 0xAC, 0x6D]
                   @ u '',\"ttl\":6000,\"cb\":\"f\"}'')
     = Inr (JObj [([0], JStr [0x6D, 0xAC, 0x6D]), (u ''ttl'', JNum (Fin 6000 0)),
                  (u ''cb'', JStr (u ''f''))])"
proof -
  let ?lc = "no_override\<lparr>l_ttl := TtlNum (num 5), l_encrypt := Some True,
            l_cb := Given (JFun (u ''f''))\<rparr>"
  let ?conf = "effective config_init ?lc"
  have p: "supportsLS (env_at 1000) (probed []) = (Inr True, probed [])"
    by (simp add: supportsLS_probed probed_def)
  have h: "localStorage (probed []) = Storage []"
    by (simp add: probed_def)
  have c: "?conf = effective (config (probed [])) ?lc"
    by (simp add: probed_def)
  have t: "ttl ?conf = TtlNum (num 5)" "num_less (num 0) (num 5)"
    by (simp_all add: effective_def no_override_def num_def)
  have en: "(if encrypt ?conf = Some True
             then crypt_or_NOOP (env_at 1000) (encrypter ?conf) (JStr (u ''a'')) (secret ?conf)
             else Inr (JStr (u ''a''))) = Inr (JStr [0x6D, 0xAC, 0x6D])"
    by (simp add: effective_def no_override_def config_init_def crypt_or_NOOP_def obfus_a)
  have pl: "plain (JStr [0x6D, 0xAC, 0x6D])" "\<not> dropped (JStr [0x6D, 0xAC, 0x6D])"
    by simp_all
  have ex: "js_add (env_at 1000) (num (now (env_at 1000))) (js_mul (env_at 1000) (num 5) (num 1000))
      = Fin 6000 0"
    by (simp add: env_at_def expiry_sample)
  have pe: "plain (JNum (Fin 6000 0))" "\<not> num_less (Fin 6000 0) (num (now (env_at 1000)))"
    by (simp_all add: env_at_def num_def)
  have cb: "[(u ''cb'', JStr (u ''f''))]
      = (case cb ?conf of JFun src \<Rightarrow> [(u ''cb'', JStr src)] | _ \<Rightarrow> [])"
    by (simp add: effective_def no_override_def)
  from set_ttl_envelope [OF p h c t en pl ex pe cb envelope_sample_text, where key = "u ''k''"]
  show ?thesis by (simp add: ex)
qed

end
